theory Spec2Isabelle
  imports Main "HOL-Library.Multiset" "HOL-Library.While_Combinator"
begin

section \<open>Data model\<close>

text \<open>
  A task is a JavaScript object with scalar fields and an array of subtasks. The scalar
  fields are a record, so that the object spread \<^verbatim>\<open>{ ...task, completed: c }\<close> is a record
  update; the tree is a datatype over that record.

  A date string (\<^verbatim>\<open>dueDate\<close>, \<^verbatim>\<open>startDate\<close>, \<^verbatim>\<open>createdAt\<close>) is represented by the time
  value \<^verbatim>\<open>new Date(s).getTime()\<close> it denotes, in milliseconds since the epoch; \<open>None\<close>
  stands for the falsy values \<^verbatim>\<open>null\<close>, \<^verbatim>\<open>undefined\<close> and the empty string, which the code
  never tells apart. Strings that do not parse as dates are outside the model. For
  \<^verbatim>\<open>recurrence\<close> the empty string stands for every falsy value. \<^verbatim>\<open>subtasks\<close> is always an
  array, as in every task that the reducer creates.
\<close>

record task_fields =
  task_id :: string
  task_text :: string
  completed :: bool
  createdAt :: int
  dueDate :: "int option"
  startDate :: "int option"
  priority :: string
  recurrence :: string
  tags :: "string list"
  description :: "string option"

datatype task = Task (props: task_fields) (subtasks: "task list")

type_synonym forest = "task list"

text \<open>
  The root array of the state holds a task or \<^verbatim>\<open>undefined\<close> at each index (\<open>None\<close>, a
  hole): \<^verbatim>\<open>REORDER_TODOS\<close> can put \<^verbatim>\<open>undefined\<close> into it. An array without a hole is a forest.

  What a call can do instead of returning: run forever (the recurrence loop), or raise a
  TypeError (reading a property of \<^verbatim>\<open>undefined\<close>).
\<close>

datatype failure = NoReturn | TypeError

text \<open>\<^verbatim>\<open>tasks.map(callback)\<close> with a callback that may fail: the first failure is the result.\<close>

fun mapE :: "('a \<Rightarrow> failure + 'b) \<Rightarrow> 'a list \<Rightarrow> failure + 'b list" where
  "mapE f [] = Inr []"
| "mapE f (x # xs) =
     (case f x of
        Inl e \<Rightarrow> Inl e
      | Inr y \<Rightarrow> (case mapE f xs of Inl e \<Rightarrow> Inl e | Inr ys \<Rightarrow> Inr (y # ys)))"

lemma mapE_cong [fundef_cong]:
  "xs = ys \<Longrightarrow> (\<And>x. x \<in> set ys \<Longrightarrow> f x = g x) \<Longrightarrow> mapE f xs = mapE g ys"
  by (induction ys arbitrary: xs) (auto split: sum.splits)

lemma subtasks_smaller [termination_simp]:
  "task \<in> set tasks \<Longrightarrow> size_list size (subtasks task) < size_list size tasks"
  by (cases task) (auto intro: size_list_estimation)

section \<open>The runtime\<close>

text \<open>
  What a dispatch reads from the platform: the clock (\<^verbatim>\<open>new Date()\<close>), the identifier
  generator (\<^verbatim>\<open>crypto.randomUUID()\<close>), the address at which the next array is allocated
  (the address of no array that exists already), and the calendar arithmetic of \<^verbatim>\<open>Date\<close> on time values:
  \<open>setDatePlus n t\<close> is \<^verbatim>\<open>d.setDate(d.getDate() + n)\<close> and \<open>setMonthPlus t\<close> is
  \<^verbatim>\<open>d.setMonth(d.getMonth() + 1)\<close>, both in the host's local time zone.
\<close>

record env =
  now :: int
  randomUUID :: string
  freshAddr :: nat
  setDatePlus :: "int \<Rightarrow> int \<Rightarrow> int"
  setMonthPlus :: "int \<Rightarrow> int"

text \<open>
  An array has an identity: \<^verbatim>\<open>===\<close> on two arrays compares the references, never the
  elements. A reference is the address of the array together with its elements (arrays are
  not mutated once the reducer has returned them).
\<close>

datatype 's ref = Ref (addr: nat) (contents: 's)

section \<open>Recurrence calculation\<close>

definition msPerDay :: int where
  "msPerDay = 86400000"

text \<open>
  \<^verbatim>\<open>date.toISOString().split('T')[0]\<close>: the UTC calendar date of a time value, as the
  string \<^verbatim>\<open>YYYY-MM-DD\<close>, which denotes that day's midnight in UTC.
\<close>

definition isoDate :: "int \<Rightarrow> int" where
  "isoDate t = (t div msPerDay) * msPerDay"

definition advance :: "env \<Rightarrow> string \<Rightarrow> int \<Rightarrow> int" where
  "advance e r date =
     (if r = ''daily'' then setDatePlus e 1 date
      else if r = ''weekly'' then setDatePlus e 7 date
      else if r = ''monthly'' then setMonthPlus e date
      else date)"

definition getNextRecurrenceDate :: "env \<Rightarrow> int option \<Rightarrow> string \<Rightarrow> failure + int option" where
  "getNextRecurrenceDate e startDate' recurrence' =
     (case startDate' of
        None \<Rightarrow> Inr None
      | Some start \<Rightarrow>
          if recurrence' = '''' then Inr None
          else (case while_option (\<lambda>date. date < now e) (advance e recurrence') start of
                  None \<Rightarrow> Inl NoReturn
                | Some date \<Rightarrow> Inr (Some (isoDate date))))"

section \<open>Tree helpers\<close>

text \<open>
  The guard \<^verbatim>\<open>if (!Array.isArray(tasks)) return []\<close> never fires on a list and has no
  equation of its own.
\<close>

fun toggleAllNestedTasks :: "task list \<Rightarrow> bool \<Rightarrow> task list" where
  "toggleAllNestedTasks tasks completedStatus =
     map (\<lambda>task. Task ((props task)\<lparr>completed := completedStatus\<rparr>)
                      (toggleAllNestedTasks (subtasks task) completedStatus)) tasks"

declare toggleAllNestedTasks.simps [simp del]

text \<open>
  The path is walked from its head. With an empty path \<^verbatim>\<open>currentId\<close> is \<^verbatim>\<open>undefined\<close>, which
  is the id of no task, so every task is kept.
\<close>

fun findTaskAndUpdate ::
  "task list \<Rightarrow> string list \<Rightarrow> (task \<Rightarrow> failure + task) \<Rightarrow> failure + task list" where
  "findTaskAndUpdate tasks [] updateFunction = Inr tasks"
| "findTaskAndUpdate tasks [i] updateFunction =
     mapE (\<lambda>task. if task_id (props task) = i then updateFunction task else Inr task) tasks"
| "findTaskAndUpdate tasks (currentId # restOfPath) updateFunction =
     mapE (\<lambda>task.
        if task_id (props task) = currentId
        then (case findTaskAndUpdate (subtasks task) restOfPath updateFunction of
                Inl e \<Rightarrow> Inl e
              | Inr updatedSubtasks \<Rightarrow> Inr (Task (props task) updatedSubtasks))
        else Inr task) tasks"

section \<open>The reducer\<close>

record payload =
  p_text :: string
  p_dueDate :: "int option"
  p_startDate :: "int option"
  p_recurrence :: string
  p_priority :: string
  p_tags :: "string list"
  p_description :: "string option"

text \<open>One key of the \<^verbatim>\<open>updates\<close> object of an update action.\<close>

datatype update =
    U_id string
  | U_text string
  | U_completed bool
  | U_createdAt int
  | U_dueDate "int option"
  | U_startDate "int option"
  | U_priority string
  | U_recurrence string
  | U_tags "string list"
  | U_description "string option"
  | U_subtasks "task list"

datatype action =
    ADD_TODO payload
  | ADD_NESTED_TASK "string list" payload
  | TOGGLE_TODO string
  | TOGGLE_NESTED_TASK "string list"
  | DELETE_TODO string
  | DELETE_NESTED_TASK "string list"
  | UPDATE_TODO string "update list"
  | UPDATE_NESTED_TASK "string list" "update list"
  | REORDER_TODOS string string
  | CLEAR_COMPLETED
  | IMPORT_TODOS "task option list ref"
  | UNDO
  | REDO
  | OTHER string

fun applyUpdate :: "update \<Rightarrow> task \<Rightarrow> task" where
  "applyUpdate (U_id v) t = Task ((props t)\<lparr>task_id := v\<rparr>) (subtasks t)"
| "applyUpdate (U_text v) t = Task ((props t)\<lparr>task_text := v\<rparr>) (subtasks t)"
| "applyUpdate (U_completed v) t = Task ((props t)\<lparr>completed := v\<rparr>) (subtasks t)"
| "applyUpdate (U_createdAt v) t = Task ((props t)\<lparr>createdAt := v\<rparr>) (subtasks t)"
| "applyUpdate (U_dueDate v) t = Task ((props t)\<lparr>dueDate := v\<rparr>) (subtasks t)"
| "applyUpdate (U_startDate v) t = Task ((props t)\<lparr>startDate := v\<rparr>) (subtasks t)"
| "applyUpdate (U_priority v) t = Task ((props t)\<lparr>priority := v\<rparr>) (subtasks t)"
| "applyUpdate (U_recurrence v) t = Task ((props t)\<lparr>recurrence := v\<rparr>) (subtasks t)"
| "applyUpdate (U_tags v) t = Task ((props t)\<lparr>tags := v\<rparr>) (subtasks t)"
| "applyUpdate (U_description v) t = Task ((props t)\<lparr>description := v\<rparr>) (subtasks t)"
| "applyUpdate (U_subtasks v) t = Task (props t) v"

text \<open>\<^verbatim>\<open>{ ...task, ...updates }\<close>: the keys of \<^verbatim>\<open>updates\<close> are written over the task in order.\<close>

definition mergeUpdates :: "task \<Rightarrow> update list \<Rightarrow> task" where
  "mergeUpdates t updates = fold applyUpdate updates t"

text \<open>
  The body of the callback of \<^verbatim>\<open>TOGGLE_TODO\<close> and of \<^verbatim>\<open>TOGGLE_NESTED_TASK\<close>, which the
  source writes out twice. Both dates are computed against one reading of the clock.
\<close>

definition toggleTask :: "env \<Rightarrow> task \<Rightarrow> failure + task" where
  "toggleTask e task =
     (let newCompletedState = \<not> completed (props task);
          updatedSubtasks = toggleAllNestedTasks (subtasks task) newCompletedState
      in if newCompletedState \<and> recurrence (props task) \<noteq> ''''
         then (case getNextRecurrenceDate e (dueDate (props task)) (recurrence (props task)) of
                 Inl err \<Rightarrow> Inl err
               | Inr newDueDate \<Rightarrow>
                   (case getNextRecurrenceDate e (startDate (props task)) (recurrence (props task)) of
                      Inl err \<Rightarrow> Inl err
                    | Inr newStartDate \<Rightarrow>
                        Inr (Task ((props task)\<lparr>completed := newCompletedState,
                                     dueDate := newDueDate, startDate := newStartDate\<rparr>)
                                  updatedSubtasks)))
         else Inr (Task ((props task)\<lparr>completed := newCompletedState\<rparr>) updatedSubtasks))"

text \<open>\<^verbatim>\<open>ADD_TODO\<close> reads neither \<^verbatim>\<open>startDate\<close> nor \<^verbatim>\<open>recurrence\<close> of its payload.\<close>

definition newTodo :: "env \<Rightarrow> payload \<Rightarrow> task" where
  "newTodo e p =
     Task \<lparr>task_id = randomUUID e, task_text = p_text p, completed = False,
           createdAt = now e, dueDate = p_dueDate p, startDate = None,
           priority = p_priority p, recurrence = '''', tags = p_tags p,
           description = p_description p\<rparr> []"

definition newSubtask :: "env \<Rightarrow> payload \<Rightarrow> task" where
  "newSubtask e p =
     Task \<lparr>task_id = randomUUID e, task_text = p_text p, completed = False,
           createdAt = now e, dueDate = p_dueDate p, startDate = p_startDate p,
           priority = p_priority p, recurrence = p_recurrence p, tags = p_tags p,
           description = p_description p\<rparr> []"

text \<open>\<^verbatim>\<open>Array.prototype.findIndex\<close>: the first position that satisfies the test, or \<open>-1\<close>.\<close>

fun findIndex :: "('a \<Rightarrow> bool) \<Rightarrow> 'a list \<Rightarrow> int" where
  "findIndex P [] = -1"
| "findIndex P (x # xs) =
     (if P x then 0 else (let i = findIndex P xs in if i < 0 then -1 else i + 1))"

text \<open>
  \<^verbatim>\<open>Array.prototype.splice(start, deleteCount, ...items)\<close>: a negative start counts from the
  end, both are clamped to the array. The result is the removed elements and the array after
  the call.
\<close>

definition splice_arr :: "'a list \<Rightarrow> int \<Rightarrow> int \<Rightarrow> 'a list \<Rightarrow> 'a list \<times> 'a list" where
  "splice_arr xs start deleteCount items =
     (let len = int (length xs);
          relativeStart = (if start < 0 then max (len + start) 0 else min start len);
          actualDeleteCount = min (max deleteCount 0) (len - relativeStart)
      in (take (nat actualDeleteCount) (drop (nat relativeStart) xs),
          take (nat relativeStart) xs @ items @ drop (nat (relativeStart + actualDeleteCount)) xs))"

text \<open>
  The body of \<^verbatim>\<open>REORDER_TODOS\<close>. The destructuring \<^verbatim>\<open>[draggedTodo] = ...\<close> gives \<^verbatim>\<open>undefined\<close>
  when nothing was removed, and the second \<^verbatim>\<open>splice\<close> inserts it all the same, so the
  elements of the result are optional tasks.
\<close>

definition reorderTodos :: "string \<Rightarrow> string \<Rightarrow> task list \<Rightarrow> task option list" where
  "reorderTodos dragId dropId state =
     (let dragIndex = findIndex (\<lambda>t. task_id (props t) = dragId) state;
          dropIndex = findIndex (\<lambda>t. task_id (props t) = dropId) state;
          (removed, newTodos) = splice_arr (map Some state) dragIndex 1 [];
          draggedTodo = (case removed of [] \<Rightarrow> None | x # _ \<Rightarrow> x)
      in snd (splice_arr newTodos dropIndex 0 [draggedTodo]))"

fun clearNestedCompleted :: "task list \<Rightarrow> task list" where
  "clearNestedCompleted tasks =
     map (\<lambda>task. Task (props task) (clearNestedCompleted (subtasks task)))
       (filter (\<lambda>task. \<not> completed (props task)) tasks)"

declare clearNestedCompleted.simps [simp del]

text \<open>The body of \<^verbatim>\<open>CLEAR_COMPLETED\<close>.\<close>

definition clearCompleted :: "task list \<Rightarrow> task list" where
  "clearCompleted state =
     (let newTodos = filter (\<lambda>todo. \<not> completed (props todo)) state
      in map (\<lambda>todo. Task (props todo) (clearNestedCompleted (subtasks todo))) newTodos)"

text \<open>A forest as a root array: the array that has its tasks and no hole.\<close>

definition filled :: "failure + task list \<Rightarrow> failure + task option list" where
  "filled r = (case r of Inl err \<Rightarrow> Inl err | Inr tasks \<Rightarrow> Inr (map Some tasks))"

text \<open>
  The array that the reducer computes from a state that is a forest. Every case but the
  default and \<^verbatim>\<open>IMPORT_TODOS\<close> builds a new array (\<^verbatim>\<open>map\<close>, \<^verbatim>\<open>filter\<close>, a spread).
\<close>

definition reduceForest :: "env \<Rightarrow> forest \<Rightarrow> action \<Rightarrow> failure + task option list" where
  "reduceForest e state a =
     (case a of
        ADD_TODO p \<Rightarrow> filled (Inr (newTodo e p # state))
      | ADD_NESTED_TASK idPath p \<Rightarrow>
          filled (findTaskAndUpdate state idPath
            (\<lambda>parentTask. Inr (Task (props parentTask) (newSubtask e p # subtasks parentTask))))
      | TOGGLE_TODO i \<Rightarrow>
          filled (mapE (\<lambda>todo. if task_id (props todo) = i then toggleTask e todo else Inr todo)
            state)
      | TOGGLE_NESTED_TASK idPath \<Rightarrow> filled (findTaskAndUpdate state idPath (toggleTask e))
      | DELETE_TODO i \<Rightarrow> filled (Inr (filter (\<lambda>todo. task_id (props todo) \<noteq> i) state))
      | DELETE_NESTED_TASK idPath \<Rightarrow>
          (let parentPath = butlast idPath
           in if parentPath = []
              then filled (Inr (filter
                     (\<lambda>task. idPath = [] \<or> task_id (props task) \<noteq> last idPath) state))
              else filled (findTaskAndUpdate state parentPath
                     (\<lambda>parentTask. Inr (Task (props parentTask)
                        (filter (\<lambda>task. task_id (props task) \<noteq> last idPath)
                           (subtasks parentTask))))))
      | UPDATE_TODO i updates \<Rightarrow>
          filled (Inr (map
            (\<lambda>todo. if task_id (props todo) = i then mergeUpdates todo updates else todo) state))
      | UPDATE_NESTED_TASK idPath updates \<Rightarrow>
          filled (findTaskAndUpdate state idPath (\<lambda>task. Inr (mergeUpdates task updates)))
      | REORDER_TODOS dragId dropId \<Rightarrow> Inr (reorderTodos dragId dropId state)
      | CLEAR_COMPLETED \<Rightarrow> filled (Inr (clearCompleted state))
      | IMPORT_TODOS payload' \<Rightarrow> Inr (contents payload')
      | _ \<Rightarrow> filled (Inr state))"

text \<open>The tasks of an array before its first hole.\<close>

definition definedTasks :: "task option list \<Rightarrow> task list" where
  "definedTasks xs = map the (takeWhile (\<lambda>x. x \<noteq> None) xs)"

text \<open>
  The array that the reducer computes from any state. A state with a hole comes from
  \<^verbatim>\<open>REORDER_TODOS\<close> on the empty array, or from an import. On such a state \<^verbatim>\<open>ADD_TODO\<close> still spreads the array
  behind the new task. \<^verbatim>\<open>REORDER_TODOS\<close> reads the id of every element up to the first
  match, so it raises a TypeError at the hole unless both ids are found before it. Every
  other case maps or filters the array from its first element and reads a property of each
  element: the callbacks do on the tasks before the hole what the case does on those tasks,
  and the hole raises the TypeError.
\<close>

definition reduceArray :: "env \<Rightarrow> task option list \<Rightarrow> action \<Rightarrow> failure + task option list" where
  "reduceArray e state a =
     (if list_all (\<lambda>x. x \<noteq> None) state then reduceForest e (map the state) a
      else case a of
             ADD_TODO p \<Rightarrow> Inr (Some (newTodo e p) # state)
           | REORDER_TODOS dragId dropId \<Rightarrow>
               (let dragIndex = findIndex (\<lambda>t. task_id (props t) = dragId) (definedTasks state);
                    dropIndex = findIndex (\<lambda>t. task_id (props t) = dropId) (definedTasks state)
                in if dragIndex < 0 \<or> dropIndex < 0 then Inl TypeError
                   else (let (removed, newTodos) = splice_arr state dragIndex 1 [];
                             draggedTodo = (case removed of [] \<Rightarrow> None | x # _ \<Rightarrow> x)
                         in Inr (snd (splice_arr newTodos dropIndex 0 [draggedTodo]))))
           | IMPORT_TODOS payload' \<Rightarrow> Inr (contents payload')
           | UNDO \<Rightarrow> Inr state
           | REDO \<Rightarrow> Inr state
           | OTHER ty \<Rightarrow> Inr state
           | _ \<Rightarrow> (case reduceForest e (definedTasks state) a of
                     Inl err \<Rightarrow> Inl err
                   | Inr _ \<Rightarrow> Inl TypeError))"

text \<open>
  \<^verbatim>\<open>todoReducer\<close> on references. An absent state is the default parameter \<^verbatim>\<open>[]\<close>.
  The default case returns the state it was given, \<^verbatim>\<open>IMPORT_TODOS\<close> returns the payload,
  every other case returns a newly allocated array.
\<close>

definition todoReducer ::
  "env \<Rightarrow> task option list ref option \<Rightarrow> action \<Rightarrow> failure + task option list ref" where
  "todoReducer e stateArg a =
     (let state = (case stateArg of None \<Rightarrow> Ref (freshAddr e) [] | Some r \<Rightarrow> r)
      in case a of
           IMPORT_TODOS payload' \<Rightarrow> Inr payload'
         | UNDO \<Rightarrow> Inr state
         | REDO \<Rightarrow> Inr state
         | OTHER ty \<Rightarrow> Inr state
         | _ \<Rightarrow> (case reduceArray e (contents state) a of
                   Inl err \<Rightarrow> Inl err
                 | Inr newState \<Rightarrow> Inr (Ref (freshAddr e) newState)))"

section \<open>Undo and redo\<close>

record 's hist =
  history :: "'s ref list"
  historyIndex :: int

text \<open>\<^verbatim>\<open>xs[i]\<close>: \<^verbatim>\<open>undefined\<close> outside the array.\<close>

definition at :: "'a list \<Rightarrow> int \<Rightarrow> 'a option" where
  "at xs i = (if 0 \<le> i \<and> i < int (length xs) then Some (xs ! nat i) else None)"

text \<open>\<^verbatim>\<open>xs.slice(0, end)\<close>: a negative end counts from the end of the array.\<close>

definition slice0 :: "'a list \<Rightarrow> int \<Rightarrow> 'a list" where
  "slice0 xs end' =
     (let len = int (length xs);
          final = (if end' < 0 then max (len + end') 0 else min end' len)
      in take (nat final) xs)"

text \<open>\<^verbatim>\<open>===\<close> on two values that are \<^verbatim>\<open>undefined\<close> or an array.\<close>

fun strictEq :: "'s ref option \<Rightarrow> 's ref option \<Rightarrow> bool" where
  "strictEq None None = True"
| "strictEq (Some x) (Some y) = (addr x = addr y)"
| "strictEq _ _ = False"

definition undoable ::
  "('s ref option \<Rightarrow> action \<Rightarrow> failure + 's ref) \<Rightarrow> 's hist \<Rightarrow> action \<Rightarrow> failure + 's hist" where
  "undoable reducer state a =
     (if a = UNDO
      then (let prevIndex = max 0 (historyIndex state - 1)
            in Inr (state\<lparr>historyIndex := prevIndex\<rparr>))
      else if a = REDO
      then (let nextIndex = min (int (length (history state)) - 1) (historyIndex state + 1)
            in Inr (state\<lparr>historyIndex := nextIndex\<rparr>))
      else (case reducer (at (history state) (historyIndex state)) a of
              Inl err \<Rightarrow> Inl err
            | Inr newPresent \<Rightarrow>
                if strictEq (Some newPresent) (at (history state) (historyIndex state))
                then Inr state
                else (let newHistory = slice0 (history state) (historyIndex state + 1)
                      in Inr \<lparr>history = newHistory @ [newPresent],
                              historyIndex = int (length newHistory)\<rparr>)))"

text \<open>The state that \<^verbatim>\<open>useUndoableReducer\<close> starts from.\<close>

definition initialHist :: "'s ref \<Rightarrow> 's hist" where
  "initialHist initialPresent = \<lparr>history = [initialPresent], historyIndex = 0\<rparr>"

section \<open>Reading a forest\<close>

text \<open>
  The tasks that a path reaches: at each level every task whose id is the head of the path
  is a candidate, as in \<open>findTaskAndUpdate\<close>, which rewrites all of them. Where ids are unique
  there is at most one. The empty path reaches nothing.
\<close>

fun tasksAt :: "task list \<Rightarrow> string list \<Rightarrow> task list" where
  "tasksAt tasks [] = []"
| "tasksAt tasks [i] = filter (\<lambda>task. task_id (props task) = i) tasks"
| "tasksAt tasks (currentId # restOfPath) =
     concat (map (\<lambda>task. tasksAt (subtasks task) restOfPath)
       (filter (\<lambda>task. task_id (props task) = currentId) tasks))"

text \<open>
  Every node of a forest in preorder: the ids from its root down to the node, whether the
  node or one of its ancestors is completed, and the node's own fields.
\<close>

fun ancestry ::
  "string list \<Rightarrow> bool \<Rightarrow> task list \<Rightarrow> (string list \<times> bool \<times> task_fields) list" where
  "ancestry path dead tasks =
     concat (map (\<lambda>task.
        (path @ [task_id (props task)], dead \<or> completed (props task), props task)
        # ancestry (path @ [task_id (props task)]) (dead \<or> completed (props task))
            (subtasks task))
      tasks)"

declare ancestry.simps [simp del]

definition alive :: "string list \<times> bool \<times> task_fields \<Rightarrow> bool" where
  "alive n = (\<not> fst (snd n))"

text \<open>A task for the examples: an id, the completed flag and the subtasks.\<close>

definition sampleTask :: "string \<Rightarrow> bool \<Rightarrow> task list \<Rightarrow> task" where
  "sampleTask i c subs =
     Task \<lparr>task_id = i, task_text = i, completed = c, createdAt = 0, dueDate = None,
           startDate = None, priority = ''Low'', recurrence = '''', tags = [],
           description = None\<rparr> subs"

definition samplePayload :: payload where
  "samplePayload =
     \<lparr>p_text = ''Buy milk'', p_dueDate = None, p_startDate = None, p_recurrence = '''',
      p_priority = ''Low'', p_tags = [], p_description = None\<rparr>"

text \<open>Every node of a forest in preorder, with the ids from its root down to it.\<close>

fun nodes :: "string list \<Rightarrow> task list \<Rightarrow> (string list \<times> task_fields) list" where
  "nodes path tasks =
     concat (map (\<lambda>task.
        (path @ [task_id (props task)], props task)
        # nodes (path @ [task_id (props task)]) (subtasks task))
      tasks)"

declare nodes.simps [simp del]

text \<open>
  \<open>cascaded T T'\<close>: \<open>T'\<close> is \<open>T\<close> toggled. Its flag is flipped, and its subtree has the nodes
  of the subtree of \<open>T\<close>, at the same places, each with the new flag and its other fields
  as they were.
\<close>

definition cascaded :: "task \<Rightarrow> task \<Rightarrow> bool" where
  "cascaded T T' \<longleftrightarrow>
     task_id (props T') = task_id (props T) \<and>
     completed (props T') = (\<not> completed (props T)) \<and>
     nodes [] (subtasks T') =
       map (\<lambda>(p, f). (p, f\<lparr>completed := \<not> completed (props T)\<rparr>)) (nodes [] (subtasks T))"

section \<open>An example runtime\<close>

text \<open>
  A host whose local time zone is UTC. A day is \<open>msPerDay\<close> milliseconds, and the month is
  advanced on the civil calendar: \<^verbatim>\<open>setMonth\<close> keeps the day of the month and lets it run
  over into the following month when the target month is shorter.
\<close>

definition daysFromCivil :: "int \<Rightarrow> int \<Rightarrow> int \<Rightarrow> int" where
  "daysFromCivil y m d =
     (let y' = (if m \<le> 2 then y - 1 else y);
          era = y' div 400;
          yoe = y' - era * 400;
          doy = (153 * (if m > 2 then m - 3 else m + 9) + 2) div 5 + d - 1;
          doe = yoe * 365 + yoe div 4 - yoe div 100 + doy
      in era * 146097 + doe - 719468)"

definition civilFromDays :: "int \<Rightarrow> int \<times> int \<times> int" where
  "civilFromDays z =
     (let z' = z + 719468;
          era = z' div 146097;
          doe = z' - era * 146097;
          yoe = (doe - doe div 1460 + doe div 36524 - doe div 146096) div 365;
          doy = doe - (365 * yoe + yoe div 4 - yoe div 100);
          mp = (5 * doy + 2) div 153;
          d = doy - (153 * mp + 2) div 5 + 1;
          m = (if mp < 10 then mp + 3 else mp - 9)
      in (yoe + era * 400 + (if m \<le> 2 then 1 else 0), m, d))"

definition utcSetMonthPlus :: "int \<Rightarrow> int" where
  "utcSetMonthPlus t =
     (case civilFromDays (t div msPerDay) of
        (y, m, d) \<Rightarrow>
          (if m = 12 then daysFromCivil (y + 1) 1 1 else daysFromCivil y (m + 1) 1) * msPerDay
          + (d - 1) * msPerDay + t mod msPerDay)"

text \<open>
  The day number of 1 March of the year \<open>y\<close>, counted as \<open>daysFromCivil\<close> counts it before
  it moves the origin to 1 January 1970.
\<close>

definition yearStart :: "int \<Rightarrow> int" where
  "yearStart y =
     (y div 400) * 146097 + (y - (y div 400) * 400) * 365 + (y - (y div 400) * 400) div 4
       - (y - (y div 400) * 400) div 100"

definition utcEnv :: "int \<Rightarrow> nat \<Rightarrow> env" where
  "utcEnv clock next =
     \<lparr>now = clock, randomUUID = ''3b241101-e2bb-4255-8caf-4136c566a962'', freshAddr = next,
      setDatePlus = (\<lambda>n t. t + n * msPerDay), setMonthPlus = utcSetMonthPlus\<rparr>"

section \<open>Runs of the history wrapper\<close>

text \<open>
  A run dispatches a list of actions, each against the runtime of its moment; a dispatch
  that fails ends the run.
\<close>

fun run ::
  "('e \<Rightarrow> 's ref option \<Rightarrow> action \<Rightarrow> failure + 's ref) \<Rightarrow> 's hist \<Rightarrow> ('e \<times> action) list
     \<Rightarrow> failure + 's hist" where
  "run reducer state [] = Inr state"
| "run reducer state ((e, a) # rest) =
     (case undoable (reducer e) state a of
        Inl err \<Rightarrow> Inl err
      | Inr state' \<Rightarrow> run reducer state' rest)"

text \<open>
  \<open>produces reducer s events ss\<close>: starting from the present \<open>s\<close>, the events are forwarded
  to the reducer one after the other, and each gives the next state of \<open>ss\<close>, which is not
  the object it was computed from (the action is not a no-op).
\<close>

fun produces ::
  "('e \<Rightarrow> 's ref option \<Rightarrow> action \<Rightarrow> failure + 's ref) \<Rightarrow> 's ref \<Rightarrow> ('e \<times> action) list
     \<Rightarrow> 's ref list \<Rightarrow> bool" where
  "produces reducer s [] [] = True"
| "produces reducer s ((e, a) # events) (s' # ss) =
     (a \<noteq> UNDO \<and> a \<noteq> REDO \<and> reducer e (Some s) a = Inr s' \<and> addr s' \<noteq> addr s \<and>
      produces reducer s' events ss)"
| "produces reducer s _ _ = False"

section \<open>The sorted view\<close>

text \<open>
  The numbers that the comparator computes with: integers (time values and priority
  ranks), the two infinities and \<^verbatim>\<open>NaN\<close>. Only the sign of a difference is used, and the
  sign of the difference of two integers is exact in floating point.
\<close>

datatype jsnum = Num int | PosInf | NegInf | NaN

fun sub :: "jsnum \<Rightarrow> jsnum \<Rightarrow> jsnum" where
  "sub NaN _ = NaN"
| "sub _ NaN = NaN"
| "sub (Num a) (Num b) = Num (a - b)"
| "sub (Num a) PosInf = NegInf"
| "sub (Num a) NegInf = PosInf"
| "sub PosInf PosInf = NaN"
| "sub PosInf _ = PosInf"
| "sub NegInf NegInf = NaN"
| "sub NegInf _ = NegInf"

definition positive :: "jsnum \<Rightarrow> bool" where
  "positive v = (case v of Num n \<Rightarrow> 0 < n | PosInf \<Rightarrow> True | NegInf \<Rightarrow> False | NaN \<Rightarrow> False)"

text \<open>
  \<^verbatim>\<open>Array.prototype.sort(compare)\<close> is the platform's: a stable sort, in which \<open>a\<close> comes
  after \<open>b\<close> when \<^verbatim>\<open>compare(a, b)\<close> is positive, and \<^verbatim>\<open>NaN\<close> counts as zero. It is modelled
  by insertion, which gives the list that every stable sort gives when the comparator is a
  consistent ordering.
\<close>

fun insert_arr :: "('a \<Rightarrow> 'a \<Rightarrow> jsnum) \<Rightarrow> 'a \<Rightarrow> 'a list \<Rightarrow> 'a list" where
  "insert_arr compare x [] = [x]"
| "insert_arr compare x (y # ys) =
     (if positive (compare x y) then y # insert_arr compare x ys else x # y # ys)"

definition sort_arr :: "('a \<Rightarrow> 'a \<Rightarrow> jsnum) \<Rightarrow> 'a list \<Rightarrow> 'a list" where
  "sort_arr compare xs = foldr (insert_arr compare) xs []"

text \<open>The state of the component that the view reads.\<close>

record view =
  searchQuery :: string
  filteredTag :: "string option"
  filter_status :: string
  sortBy :: string
  sortOrder :: string

text \<open>\<^verbatim>\<open>String.prototype.toLowerCase\<close>, on the ASCII letters.\<close>

definition toLowerCase :: "string \<Rightarrow> string" where
  "toLowerCase s =
     map (\<lambda>c. if 65 \<le> (of_char c :: nat) \<and> (of_char c :: nat) \<le> 90
               then char_of (of_char c + 32 :: nat) else c) s"

text \<open>\<^verbatim>\<open>String.prototype.includes\<close>.\<close>

fun includes_str :: "string \<Rightarrow> string \<Rightarrow> bool" where
  "includes_str [] q = (q = [])"
| "includes_str (c # s) q = (take (length q) (c # s) = q \<or> includes_str s q)"

text \<open>
  \<^verbatim>\<open>priorityOrder[p] || 0\<close> as it enters the subtraction. The object literal has the three
  ranks and inherits the properties of \<^verbatim>\<open>Object.prototype\<close>: for one of their names the
  lookup finds a function (an object for \<^verbatim>\<open>__proto__\<close>), which is truthy and is \<^verbatim>\<open>NaN\<close> as a
  number. Any other string has no property and gives 0.
\<close>

definition objectPrototypeKeys :: "string list" where
  "objectPrototypeKeys =
     [''constructor'', ''hasOwnProperty'', ''isPrototypeOf'', ''propertyIsEnumerable'',
      ''toLocaleString'', ''toString'', ''valueOf'', ''__proto__'', ''__defineGetter__'',
      ''__defineSetter__'', ''__lookupGetter__'', ''__lookupSetter__'']"

definition priorityOrder :: "string \<Rightarrow> jsnum" where
  "priorityOrder p =
     (if p = ''High'' then Num 3 else if p = ''Medium'' then Num 2
      else if p = ''Low'' then Num 1
      else if p \<in> set objectPrototypeKeys then NaN else Num 0)"

text \<open>The comparator that \<^verbatim>\<open>getFilteredAndSortedTodos\<close> passes to \<^verbatim>\<open>sort\<close>.\<close>

definition compareTodos :: "view \<Rightarrow> task \<Rightarrow> task \<Rightarrow> jsnum" where
  "compareTodos v a b =
     (if sortBy v = ''priority''
      then (let aVal = priorityOrder (priority (props a));
                bVal = priorityOrder (priority (props b))
            in if sortOrder v = ''asc'' then sub aVal bVal else sub bVal aVal)
      else if sortBy v = ''dueDate''
      then (let aVal = (case dueDate (props a) of Some t \<Rightarrow> Num t | None \<Rightarrow> PosInf);
                bVal = (case dueDate (props b) of Some t \<Rightarrow> Num t | None \<Rightarrow> PosInf)
            in if sortOrder v = ''asc'' then sub aVal bVal else sub bVal aVal)
      else (let aCreatedAt = createdAt (props a);
                bCreatedAt = createdAt (props b)
            in sub (Num bCreatedAt) (Num aCreatedAt)))"

text \<open>The array \<^verbatim>\<open>filtered\<close> of \<^verbatim>\<open>getFilteredAndSortedTodos\<close>, before it is sorted.\<close>

definition filteredTodos :: "view \<Rightarrow> task list \<Rightarrow> task list" where
  "filteredTodos v todos =
     (let filtered = filter (\<lambda>todo.
            includes_str (toLowerCase (task_text (props todo))) (toLowerCase (searchQuery v)) \<or>
            (case description (props todo) of
               None \<Rightarrow> False
             | Some d \<Rightarrow> includes_str (toLowerCase d) (toLowerCase (searchQuery v)))) todos;
          filtered = (case filteredTag v of
               None \<Rightarrow> filtered
             | Some tag \<Rightarrow>
                 if tag = [] then filtered
                 else filter (\<lambda>todo. tag \<in> set (tags (props todo))) filtered)
      in if filter_status v = ''active''
         then filter (\<lambda>todo. \<not> completed (props todo)) filtered
         else if filter_status v = ''completed''
         then filter (\<lambda>todo. completed (props todo)) filtered
         else filtered)"

definition getFilteredAndSortedTodos :: "view \<Rightarrow> task list \<Rightarrow> task list" where
  "getFilteredAndSortedTodos v todos = sort_arr (compareTodos v) (filteredTodos v todos)"

definition hasDueDate :: "task \<Rightarrow> bool" where
  "hasDueDate t = (dueDate (props t) \<noteq> None)"

text \<open>
  The order that the due-date comparator induces when ascending: by time value, a task
  without a due date after every task that has one.
\<close>

definition dueLe :: "task \<Rightarrow> task \<Rightarrow> bool" where
  "dueLe a b =
     (case dueDate (props a) of
        None \<Rightarrow> dueDate (props b) = None
      | Some x \<Rightarrow> (case dueDate (props b) of None \<Rightarrow> True | Some y \<Rightarrow> x \<le> y))"

text \<open>A task for the examples with a due date.\<close>

definition dueTask :: "string \<Rightarrow> int option \<Rightarrow> task" where
  "dueTask i d = Task ((props (sampleTask i False []))\<lparr>dueDate := d\<rparr>) []"

definition dueDateView :: view where
  "dueDateView =
     \<lparr>searchQuery = [], filteredTag = None, filter_status = ''all'', sortBy = ''dueDate'',
      sortOrder = ''asc''\<rparr>"

section \<open>Places in the root array\<close>





section \<open>The reducer on a forest\<close>

lemma reduceArray_forest [simp]: "reduceArray e (map Some forest) a = reduceForest e forest a"
proof -
  have "list_all (\<lambda>x. x \<noteq> None) (map Some forest)"
    by (simp add: list_all_iff)
  moreover have "map the (map Some forest) = forest"
    by (simp add: comp_def)
  ultimately show ?thesis
    by (simp add: reduceArray_def)
qed

lemma filled_Inr [simp]: "filled (Inr tasks) = Inr (map Some tasks)"
  by (simp add: filled_def)

lemma filled_Inl [simp]: "filled (Inl err) = Inl err"
  by (simp add: filled_def)

section \<open>Induction over forests\<close>

lemma forest_induct [case_names Nil Cons]:
  assumes "P []" and "\<And>t ts. P (subtasks t) \<Longrightarrow> P ts \<Longrightarrow> P (t # ts)"
  shows "P forest"
proof (induction forest rule: measure_induct_rule [where f = "size_list size"])
  case (less f)
  show ?case
  proof (cases f)
    case Nil
    with assms(1) show ?thesis by simp
  next
    case (Cons t ts)
    have "size_list size (subtasks t) < size_list size f"
      using Cons by (cases t) simp
    moreover have "size_list size ts < size_list size f"
      using Cons by simp
    ultimately show ?thesis
      using less assms(2) Cons by blast
  qed
qed

lemma mapE_unchanged:
  "(\<And>x. x \<in> set xs \<Longrightarrow> f x = Inr x) \<Longrightarrow> mapE f xs = Inr xs"
  by (induction xs) auto

section \<open>The path resolver\<close>

text \<open>
  C7. Path resolution round trip: updating with the identity gives back the input forest.
  This holds for every path, so in particular for every valid path to a task.
\<close>

theorem findTaskAndUpdate_identity: "findTaskAndUpdate forest path Inr = Inr forest"
proof (induction forest path "Inr :: task \<Rightarrow> failure + task" rule: findTaskAndUpdate.induct)
  case (1 tasks)
  show ?case by simp
next
  case (2 tasks i)
  show ?case by (simp add: mapE_unchanged)
next
  case (3 tasks currentId v va)
  show ?case
    unfolding findTaskAndUpdate.simps
    by (rule mapE_unchanged) (simp add: 3)
qed

text \<open>
  C6. An unresolvable path is a no-op: when a non-empty path reaches no task, because at
  some level its id is the id of no candidate, the forest is returned as it was, whatever
  the update function is (it is never called, so it cannot fail either).
\<close>

theorem findTaskAndUpdate_unresolved:
  "path \<noteq> [] \<Longrightarrow> tasksAt forest path = [] \<Longrightarrow> findTaskAndUpdate forest path f = Inr forest"
proof (induction forest path f rule: findTaskAndUpdate.induct)
  case (1 tasks f)
  then show ?case by simp
next
  case (2 tasks i f)
  then show ?case by (auto intro!: mapE_unchanged simp: filter_empty_conv)
next
  case (3 tasks currentId v va f)
  show ?case
    unfolding findTaskAndUpdate.simps
  proof (rule mapE_unchanged)
    fix x assume x: "x \<in> set tasks"
    show "(if task_id (props x) = currentId
          then case findTaskAndUpdate (subtasks x) (v # va) f of Inl e \<Rightarrow> Inl e
               | Inr updatedSubtasks \<Rightarrow> Inr (Task (props x) updatedSubtasks)
          else Inr x) = Inr x"
    proof (cases "task_id (props x) = currentId")
      case True
      with x "3.prems" have "tasksAt (subtasks x) (v # va) = []" by auto
      with "3.IH" x True have "findTaskAndUpdate (subtasks x) (v # va) f = Inr (subtasks x)"
        by simp
      with True show ?thesis by simp
    next
      case False
      then show ?thesis by simp
    qed
  qed
qed

theorem findTaskAndUpdate_unresolved_witness:
  "[''a'', ''c''] \<noteq> [] \<and>
   tasksAt [sampleTask ''a'' False [sampleTask ''b'' False []]] [''a'', ''c''] = [] \<and>
   findTaskAndUpdate [sampleTask ''a'' False [sampleTask ''b'' False []]] [''a'', ''c'']
     (\<lambda>t. Inl NoReturn) = Inr [sampleTask ''a'' False [sampleTask ''b'' False []]]"
  using findTaskAndUpdate_unresolved
    [of "[''a'', ''c'']" "[sampleTask ''a'' False [sampleTask ''b'' False []]]" "\<lambda>t. Inl NoReturn"]
  by (simp add: sampleTask_def)

section \<open>Clearing completed tasks\<close>

lemma ancestry_Nil [simp]: "ancestry path dead [] = []"
  by (subst ancestry.simps) simp

lemma ancestry_Cons [simp]:
  "ancestry path dead (t # ts) =
     (path @ [task_id (props t)], dead \<or> completed (props t), props t)
     # ancestry (path @ [task_id (props t)]) (dead \<or> completed (props t)) (subtasks t)
     @ ancestry path dead ts"
  by (simp add: ancestry.simps [of _ _ "t # ts"] ancestry.simps [of _ _ ts])

lemma clearNestedCompleted_Nil [simp]: "clearNestedCompleted [] = []"
  by (subst clearNestedCompleted.simps) simp

lemma clearNestedCompleted_Cons [simp]:
  "clearNestedCompleted (t # ts) =
     (if completed (props t) then clearNestedCompleted ts
      else Task (props t) (clearNestedCompleted (subtasks t)) # clearNestedCompleted ts)"
  by (simp add: clearNestedCompleted.simps [of "t # ts"] clearNestedCompleted.simps [of ts])

lemma clearCompleted_eq: "clearCompleted state = clearNestedCompleted state"
  by (subst clearNestedCompleted.simps) (simp add: clearCompleted_def)

lemma alive_triple [simp]: "alive (p, d, f) = (\<not> d)"
  by (simp add: alive_def)

lemma ancestry_dead: "filter alive (ancestry path True tasks) = []"
  by (induction tasks arbitrary: path rule: forest_induct) simp_all

lemma ancestry_clear:
  "ancestry path False (clearNestedCompleted tasks) = filter alive (ancestry path False tasks)"
  by (induction tasks arbitrary: path rule: forest_induct) (simp_all add: ancestry_dead)

lemma todoReducer_clear:
  "todoReducer e (Some (Ref a (map Some forest))) CLEAR_COMPLETED
     = Inr (Ref (freshAddr e) (map Some (clearCompleted forest)))"
  by (simp add: todoReducer_def reduceForest_def)

text \<open>
  C2. \<^verbatim>\<open>CLEAR_COMPLETED\<close> returns a forest whose nodes, listed in preorder with their id
  paths and fields, are exactly the nodes of the input that are not completed and have no
  completed ancestor: a completed task goes with its whole subtree, at every depth, and
  nothing else goes.
\<close>

theorem clear_completed_survivors:
  "todoReducer e (Some (Ref a (map Some forest))) CLEAR_COMPLETED
     = Inr (Ref (freshAddr e) (map Some (clearCompleted forest))) \<and>
   ancestry [] False (clearCompleted forest) = filter alive (ancestry [] False forest)"
  by (simp add: todoReducer_clear clearCompleted_eq ancestry_clear)

section \<open>Reordering the root tasks\<close>

lemma findIndex_range: "- 1 \<le> findIndex P xs \<and> findIndex P xs < int (length xs)"
  by (induction xs) (auto simp: Let_def)










lemma reorderTodos_empty: "reorderTodos dragId dropId [] = [None]"
  by (simp add: reorderTodos_def splice_arr_def Let_def)

lemma map_Some_the: "list_all (\<lambda>x. x \<noteq> None) xs \<Longrightarrow> map Some (map the xs) = xs"
  by (induction xs) auto



text \<open>
  The array with the hole is a state like any other: the wrapper appends it, \<^verbatim>\<open>ADD_TODO\<close>
  puts a task in front of the hole, and an action that reads a property of each element
  raises the TypeError.
\<close>

lemma reorder_empty_then:
  "undoable (todoReducer (utcEnv 0 1)) (initialHist (Ref 0 [])) (REORDER_TODOS ''a'' ''b'')
     = Inr \<lparr>history = [Ref 0 [], Ref 1 [None]], historyIndex = 1\<rparr> \<and>
   todoReducer (utcEnv 5 2) (Some (Ref 1 [None])) (ADD_TODO samplePayload)
     = Inr (Ref 2 [Some (newTodo (utcEnv 5 2) samplePayload), None]) \<and>
   todoReducer (utcEnv 5 2) (Some (Ref 1 [None])) (DELETE_TODO ''a'') = Inl TypeError \<and>
   todoReducer (utcEnv 5 2) (Some (Ref 1 [None])) (REORDER_TODOS ''a'' ''b'') = Inl TypeError"
  by (simp add: undoable_def initialHist_def at_def slice0_def todoReducer_def reduceArray_def
        reduceForest_def reorderTodos_empty definedTasks_def utcEnv_def)


lemma findIndex_least:
  "0 \<le> findIndex P xs \<Longrightarrow> nat (findIndex P xs) < length xs"
  using findIndex_range [of P xs] by simp













section \<open>The history wrapper\<close>

lemma undoable_bounds:
  assumes "0 \<le> historyIndex st" and "historyIndex st < int (length (history st))"
    and "undoable reducer st a = Inr st'"
  shows "0 \<le> historyIndex st' \<and> historyIndex st' < int (length (history st'))"
  using assms
  by (auto simp: undoable_def Let_def slice0_def split: if_splits sum.splits)

lemma run_bounds:
  "0 \<le> historyIndex st \<Longrightarrow> historyIndex st < int (length (history st)) \<Longrightarrow>
   run reducer st events = Inr st' \<Longrightarrow>
   0 \<le> historyIndex st' \<and> historyIndex st' < int (length (history st'))"
proof (induction reducer st events rule: run.induct)
  case (1 reducer state)
  then show ?case by simp
next
  case (2 reducer state e a rest)
  from "2.prems"(3) obtain mid where mid: "undoable (reducer e) state a = Inr mid"
    and rest: "run reducer mid rest = Inr st'"
    by (auto split: sum.splits)
  from undoable_bounds [OF "2.prems"(1,2) mid] "2.IH" [OF mid] rest
  show ?case by blast
qed

text \<open>
  C8. History index bounds: in every state that a run from the initial state reaches, by
  any actions and whatever the reducer is, \<open>0 \<le> historyIndex < length history\<close>.
\<close>

theorem history_index_bounds:
  "run reducer (initialHist initialPresent) events = Inr st \<Longrightarrow>
     0 \<le> historyIndex st \<and> historyIndex st < int (length (history st))"
  using run_bounds [of "initialHist initialPresent" reducer events st]
  by (simp add: initialHist_def)

text \<open>
  C1. The test for a no-op is \<^verbatim>\<open>===\<close>, the identity of the two arrays. When the reducer
  returns the very object that is the present state, as \<open>todoReducer\<close> does for an action
  type it does not know, the wrapper returns its state unchanged: no entry is added to the
  history and the index stays. Any other result, equal to the present element by element
  or not, is appended after the present, and the index moves to it.
\<close>

theorem undoable_same_reference:
  assumes "a \<noteq> UNDO" and "a \<noteq> REDO"
    and "at (history st) (historyIndex st) = Some present"
    and "reducer (Some present) a = Inr newPresent"
  shows "undoable reducer st a =
           (if addr newPresent = addr present then Inr st
            else Inr \<lparr>history = take (nat (historyIndex st) + 1) (history st) @ [newPresent],
                      historyIndex = historyIndex st + 1\<rparr>)"
proof -
  have range: "0 \<le> historyIndex st" "historyIndex st < int (length (history st))"
    using assms(3) by (auto simp: at_def split: if_splits)
  then have "slice0 (history st) (historyIndex st + 1)
               = take (nat (historyIndex st) + 1) (history st)"
    by (simp add: slice0_def nat_add_distrib)
  moreover have "int (length (take (nat (historyIndex st) + 1) (history st))) = historyIndex st + 1"
    using range by simp
  ultimately show ?thesis
    using assms by (simp add: undoable_def)
qed

lemma undoable_append:
  assumes "a \<noteq> UNDO" and "a \<noteq> REDO"
    and "reducer (Some s) a = Inr s'" and "addr s' \<noteq> addr s"
  shows "undoable reducer \<lparr>history = pre @ s # post, historyIndex = int (length pre)\<rparr> a
           = Inr \<lparr>history = pre @ [s, s'], historyIndex = int (length pre) + 1\<rparr>"
  using assms by (simp add: undoable_def at_def slice0_def nat_add_distrib)

lemma run_produces:
  "produces reducer s events ss \<Longrightarrow>
   run reducer \<lparr>history = pre @ [s], historyIndex = int (length pre)\<rparr> events
     = Inr \<lparr>history = pre @ s # ss, historyIndex = int (length pre) + int (length ss)\<rparr>"
proof (induction reducer s events ss arbitrary: pre rule: produces.induct)
  case (1 reducer s)
  then show ?case by simp
next
  case (2 reducer s e a events s' ss)
  then have u: "undoable (reducer e) \<lparr>history = pre @ [s], historyIndex = int (length pre)\<rparr> a
                 = Inr \<lparr>history = pre @ [s, s'], historyIndex = int (length pre) + 1\<rparr>"
    using undoable_append [of a "reducer e" s s' pre "[]"] by simp
  from 2 have "produces reducer s' events ss" by simp
  from "2.IH" [OF this, of "pre @ [s]"] u show ?case by (simp add: ac_simps)
qed simp_all


text \<open>
  C3. History linearity: from \<open>[S0]\<close> with index 0, actions \<open>A1..An\<close> (\<open>n \<ge> 1\<close>), none of
  them a no-op, give the history \<open>[S0, S1, ..., Sn]\<close> with index \<open>n\<close>; an \<^verbatim>\<open>UNDO\<close> then sets
  the index to \<open>n - 1\<close>, where the present is \<open>S(n-1)\<close>; a further action that is not a
  no-op then cuts the history after the index and appends its state \<open>Sm\<close>: the history is
  \<open>[S0, ..., S(n-1), Sm]\<close> and the index is \<open>n\<close>.
\<close>

theorem history_linearity:
  assumes "produces reducer s0 events ss" and "ss \<noteq> []"
    and "am \<noteq> UNDO" and "am \<noteq> REDO"
    and "reducer em (Some ((s0 # ss) ! (length ss - 1))) am = Inr sm"
    and "addr sm \<noteq> addr ((s0 # ss) ! (length ss - 1))"
  shows "run reducer (initialHist s0) events
           = Inr \<lparr>history = s0 # ss, historyIndex = int (length ss)\<rparr> \<and>
         undoable (reducer eu) \<lparr>history = s0 # ss, historyIndex = int (length ss)\<rparr> UNDO
           = Inr \<lparr>history = s0 # ss, historyIndex = int (length ss) - 1\<rparr> \<and>
         at (s0 # ss) (int (length ss) - 1) = Some ((s0 # ss) ! (length ss - 1)) \<and>
         undoable (reducer em) \<lparr>history = s0 # ss, historyIndex = int (length ss) - 1\<rparr> am
           = Inr \<lparr>history = butlast (s0 # ss) @ [sm], historyIndex = int (length ss)\<rparr>"
proof -
  obtain mid sl where ss: "ss = mid @ [sl]"
    using assms(2) by (meson rev_exhaust)
  have "s0 # mid \<noteq> []" by simp
  then obtain pre s where pre: "s0 # mid = pre @ [s]"
    by (meson rev_exhaust)
  have len: "length ss = Suc (length pre)"
    using ss pre by (metis length_Cons length_append_singleton)
  have hist: "s0 # ss = pre @ s # [sl]"
    using ss pre by simp
  have s: "(s0 # ss) ! (length ss - 1) = s"
    unfolding hist len by simp
  have bl: "butlast (s0 # ss) = pre @ [s]"
    unfolding hist by (simp add: butlast_append)
  have 1: "run reducer (initialHist s0) events
             = Inr \<lparr>history = s0 # ss, historyIndex = int (length ss)\<rparr>"
    using run_produces [OF assms(1), of "[]"] by (simp add: initialHist_def)
  have 2: "undoable (reducer eu) \<lparr>history = s0 # ss, historyIndex = int (length ss)\<rparr> UNDO
             = Inr \<lparr>history = s0 # ss, historyIndex = int (length ss) - 1\<rparr>"
    unfolding len by (simp add: undoable_def)
  have 3: "at (s0 # ss) (int (length ss) - 1) = Some ((s0 # ss) ! (length ss - 1))"
    unfolding s unfolding hist len by (simp add: at_def)
  have "undoable (reducer em) \<lparr>history = pre @ s # [sl], historyIndex = int (length pre)\<rparr> am
          = Inr \<lparr>history = pre @ [s, sm], historyIndex = int (length pre) + 1\<rparr>"
    using assms(3,4) assms(5,6) [unfolded s] by (rule undoable_append)
  then have 4: "undoable (reducer em) \<lparr>history = s0 # ss, historyIndex = int (length ss) - 1\<rparr> am
           = Inr \<lparr>history = butlast (s0 # ss) @ [sm], historyIndex = int (length ss)\<rparr>"
    unfolding bl unfolding hist len by (simp add: ac_simps)
  from 1 2 3 4 show ?thesis by blast
qed


theorem history_index_bounds_witness:
  "run todoReducer (initialHist (Ref 0 []))
     [(utcEnv 0 1, CLEAR_COMPLETED), (utcEnv 1 2, UNDO), (utcEnv 2 2, UNDO), (utcEnv 3 2, REDO)]
     = Inr \<lparr>history = [Ref 0 [], Ref 1 []], historyIndex = 1\<rparr> \<and>
   0 \<le> historyIndex \<lparr>history = [Ref 0 [], Ref 1 ([] :: task option list)], historyIndex = 1\<rparr> \<and>
   historyIndex \<lparr>history = [Ref 0 [], Ref 1 ([] :: task option list)], historyIndex = 1\<rparr>
     < int (length (history \<lparr>history = [Ref 0 [], Ref 1 ([] :: task option list)], historyIndex = 1\<rparr>))"
proof -
  have r: "run todoReducer (initialHist (Ref 0 []))
     [(utcEnv 0 1, CLEAR_COMPLETED), (utcEnv 1 2, UNDO), (utcEnv 2 2, UNDO), (utcEnv 3 2, REDO)]
     = Inr \<lparr>history = [Ref 0 [], Ref 1 []], historyIndex = 1\<rparr>"
    by (simp add: initialHist_def undoable_def todoReducer_def reduceArray_def reduceForest_def clearCompleted_def
        utcEnv_def at_def slice0_def)
  from history_index_bounds [OF r] r show ?thesis by simp
qed

text \<open>
  C1 does not hold for equality element by element: a state that is equal to the present
  still grows the history when it is a new array. Deleting an id that no task has filters
  the forest into a new array with the same tasks, and the wrapper appends it.
\<close>

theorem noop_structural_counterexample:
  "DELETE_TODO ''x'' \<noteq> UNDO \<and> DELETE_TODO ''x'' \<noteq> REDO \<and>
   todoReducer (utcEnv 0 1) (Some (Ref 0 [Some (sampleTask ''a'' False [])])) (DELETE_TODO ''x'')
     = Inr (Ref 1 [Some (sampleTask ''a'' False [])]) \<and>
   contents (Ref 1 [Some (sampleTask ''a'' False [])]) = contents (Ref 0 [Some (sampleTask ''a'' False [])]) \<and>
   undoable (todoReducer (utcEnv 0 1)) (initialHist (Ref 0 [Some (sampleTask ''a'' False [])]))
       (DELETE_TODO ''x'')
     = Inr \<lparr>history = [Ref 0 [Some (sampleTask ''a'' False [])], Ref 1 [Some (sampleTask ''a'' False [])]],
            historyIndex = 1\<rparr>"
  by (simp add: initialHist_def undoable_def todoReducer_def reduceArray_def reduceForest_def
        utcEnv_def at_def slice0_def sampleTask_def)

theorem undoable_same_reference_witness:
  "OTHER ''PING'' \<noteq> UNDO \<and> OTHER ''PING'' \<noteq> REDO \<and>
   at (history (initialHist (Ref 0 [Some (sampleTask ''a'' False [])])))
      (historyIndex (initialHist (Ref 0 [Some (sampleTask ''a'' False [])])))
     = Some (Ref 0 [Some (sampleTask ''a'' False [])]) \<and>
   todoReducer (utcEnv 0 1) (Some (Ref 0 [Some (sampleTask ''a'' False [])])) (OTHER ''PING'')
     = Inr (Ref 0 [Some (sampleTask ''a'' False [])]) \<and>
   undoable (todoReducer (utcEnv 0 1)) (initialHist (Ref 0 [Some (sampleTask ''a'' False [])]))
       (OTHER ''PING'')
     = Inr (initialHist (Ref 0 [Some (sampleTask ''a'' False [])]))"
  using undoable_same_reference
    [of "OTHER ''PING''" "initialHist (Ref 0 [Some (sampleTask ''a'' False [])])"
        "Ref 0 [Some (sampleTask ''a'' False [])]" "todoReducer (utcEnv 0 1)"
        "Ref 0 [Some (sampleTask ''a'' False [])]"]
  by (simp add: initialHist_def at_def todoReducer_def)

theorem history_linearity_witness:
  "produces todoReducer (Ref 0 []) [(utcEnv 10 1, ADD_TODO samplePayload)]
     [Ref 1 [Some (newTodo (utcEnv 10 1) samplePayload)]] \<and>
   [Ref 1 [Some (newTodo (utcEnv 10 1) samplePayload)]] \<noteq> [] \<and>
   CLEAR_COMPLETED \<noteq> UNDO \<and> CLEAR_COMPLETED \<noteq> REDO \<and>
   todoReducer (utcEnv 30 2) (Some (Ref 0 [])) CLEAR_COMPLETED = Inr (Ref 2 []) \<and>
   addr (Ref 2 ([] :: task option list)) \<noteq> addr (Ref 0 ([] :: task option list)) \<and>
   run todoReducer (initialHist (Ref 0 [])) [(utcEnv 10 1, ADD_TODO samplePayload)]
     = Inr \<lparr>history = [Ref 0 [], Ref 1 [Some (newTodo (utcEnv 10 1) samplePayload)]], historyIndex = 1\<rparr> \<and>
   undoable (todoReducer (utcEnv 20 2))
       \<lparr>history = [Ref 0 [], Ref 1 [Some (newTodo (utcEnv 10 1) samplePayload)]], historyIndex = 1\<rparr> UNDO
     = Inr \<lparr>history = [Ref 0 [], Ref 1 [Some (newTodo (utcEnv 10 1) samplePayload)]], historyIndex = 0\<rparr> \<and>
   undoable (todoReducer (utcEnv 30 2))
       \<lparr>history = [Ref 0 [], Ref 1 [Some (newTodo (utcEnv 10 1) samplePayload)]], historyIndex = 0\<rparr>
       CLEAR_COMPLETED
     = Inr \<lparr>history = [Ref 0 [], Ref 2 []], historyIndex = 1\<rparr>"
proof -
  have p: "produces todoReducer (Ref 0 []) [(utcEnv 10 1, ADD_TODO samplePayload)]
             [Ref 1 [Some (newTodo (utcEnv 10 1) samplePayload)]]"
    by (simp add: todoReducer_def reduceArray_def reduceForest_def utcEnv_def)
  have r: "todoReducer (utcEnv 30 2)
             (Some ((Ref 0 [] # [Ref 1 [Some (newTodo (utcEnv 10 1) samplePayload)]])
                ! (length [Ref 1 [Some (newTodo (utcEnv 10 1) samplePayload)]] - 1))) CLEAR_COMPLETED
           = Inr (Ref 2 [])"
    by (simp add: todoReducer_def reduceArray_def reduceForest_def clearCompleted_def utcEnv_def)
  have a: "addr (Ref 2 ([] :: task option list))
             \<noteq> addr ((Ref 0 [] # [Ref 1 [Some (newTodo (utcEnv 10 1) samplePayload)]])
                ! (length [Ref 1 [Some (newTodo (utcEnv 10 1) samplePayload)]] - 1))"
    by simp
  from history_linearity [OF p _ _ _ r a, of "utcEnv 20 2"] p r show ?thesis by simp
qed

section \<open>The recurrence calculator\<close>

lemma funpow_grows:
  fixes f :: "int \<Rightarrow> int"
  assumes "\<forall>t. t < f t"
  shows "start + int k \<le> (f ^^ k) start"
proof (induction k)
  case 0
  show ?case by simp
next
  case (Suc k)
  have "(f ^^ k) start < f ((f ^^ k) start)" using assms by blast
  with Suc show ?case by simp
qed

lemma funpow_increasing:
  fixes f :: "int \<Rightarrow> int"
  assumes "\<forall>t. t < f t"
  shows "j \<le> k \<Longrightarrow> (f ^^ j) start \<le> (f ^^ k) start"
proof (induction k)
  case 0
  then show ?case by simp
next
  case (Suc k)
  have step: "(f ^^ k) start < f ((f ^^ k) start)" using assms by blast
  show ?case
  proof (cases "j = Suc k")
    case True
    then show ?thesis by simp
  next
    case False
    with Suc.prems have "j \<le> k" by simp
    with Suc.IH step show ?thesis by simp
  qed
qed

lemma loop_returns:
  fixes f :: "int \<Rightarrow> int"
  assumes "\<forall>t. t < f t"
  shows "\<exists>k. while_option (\<lambda>date. date < clock) f start = Some ((f ^^ k) start) \<and>
             \<not> (f ^^ k) start < clock \<and>
             (\<forall>j. \<not> (f ^^ j) start < clock \<longrightarrow> (f ^^ k) start \<le> (f ^^ j) start)"
proof -
  let ?P = "\<lambda>k. \<not> (f ^^ k) start < clock"
  have "start + int (nat (clock - start)) \<le> (f ^^ nat (clock - start)) start"
    using assms by (rule funpow_grows)
  then have ex: "?P (nat (clock - start))" by (simp split: if_splits)
  define k where "k = (LEAST k. ?P k)"
  have k: "?P k" unfolding k_def using ex by (rule LeastI)
  have least: "k \<le> j" if "?P j" for j unfolding k_def using that by (rule Least_le)
  have "while_option (\<lambda>date. date < clock) f start = Some ((f ^^ k) start)"
    unfolding while_option_def k_def using ex by auto
  moreover have "(f ^^ k) start \<le> (f ^^ j) start" if "?P j" for j
    using funpow_increasing [OF assms least [OF that]] .
  ultimately show ?thesis using k by blast
qed

lemma isoDate_funpow:
  assumes "\<forall>t. isoDate t = t \<longrightarrow> isoDate (f t) = f t" and "isoDate start = start"
  shows "isoDate ((f ^^ k) start) = (f ^^ k) start"
  using assms by (induction k) simp_all

lemma isoDate_plus_days: "isoDate t = t \<Longrightarrow> isoDate (t + n * msPerDay) = t + n * msPerDay"
proof -
  assume a: "isoDate t = t"
  have "(t + n * msPerDay) div msPerDay = t div msPerDay + n"
    by (simp add: msPerDay_def)
  then have "isoDate (t + n * msPerDay) = isoDate t + n * msPerDay"
    by (simp add: isoDate_def algebra_simps)
  with a show ?thesis by simp
qed

text \<open>
  A recurrence that is none of the three strings leaves the date where it is, so for a
  start date in the past the loop never ends.
\<close>

lemma unhandled_recurrence_no_return:
  assumes "r \<noteq> ''''" and "r \<noteq> ''daily''" and "r \<noteq> ''weekly''" and "r \<noteq> ''monthly''"
    and "start < now e"
  shows "getNextRecurrenceDate e (Some start) r = Inl NoReturn"
proof -
  have "advance e r = (\<lambda>date. date)" using assms(2-4) by (auto simp: advance_def)
  moreover have "((\<lambda>date. date) ^^ k) start = start" for k
    by (induction k) simp_all
  ultimately have "while_option (\<lambda>date. date < now e) (advance e r) start = None"
    using assms(5) by (simp add: while_option_def)
  then show ?thesis using assms(1) by (simp add: getNextRecurrenceDate_def)
qed

lemma isoDate_bounds: "isoDate t \<le> t \<and> t < isoDate t + msPerDay"
proof -
  have "t = (t div msPerDay) * msPerDay + t mod msPerDay" by simp
  moreover have "0 \<le> t mod msPerDay" "t mod msPerDay < msPerDay"
    by (simp_all add: msPerDay_def)
  ultimately show ?thesis unfolding isoDate_def by linarith
qed

lemma handled_recurrence:
  assumes "\<forall>t. t < advance e r t"
  shows "r = ''daily'' \<or> r = ''weekly'' \<or> r = ''monthly''"
proof (rule ccontr)
  assume "\<not> ?thesis"
  then have "advance e r 0 = 0" by (simp add: advance_def)
  with assms show False by (metis less_irrefl)
qed

text \<open>
  On a host whose local days all have \<open>msPerDay\<close> milliseconds (a time zone with a fixed
  offset), the daily and the weekly step move every date forward, keep UTC midnights, and
  \<open>k\<close> of them are \<open>k\<close> days or \<open>k\<close> weeks.
\<close>

lemma fixed_offset_host:
  assumes "\<forall>n t. setDatePlus e n t = t + n * msPerDay"
    and "r = ''daily'' \<or> r = ''weekly''"
  shows "(\<forall>t. t < advance e r t) \<and>
         (\<forall>t. isoDate t = t \<longrightarrow> isoDate (advance e r t) = advance e r t) \<and>
         (advance e r ^^ k) start
           = start + int k * (if r = ''daily'' then 1 else 7) * msPerDay"
proof -
  have adv: "advance e r t = t + (if r = ''daily'' then 1 else 7) * msPerDay" for t
    using assms by (auto simp: advance_def)
  have 1: "\<forall>t. t < advance e r t"
    unfolding adv by (simp add: msPerDay_def)
  have 2: "\<forall>t. isoDate t = t \<longrightarrow> isoDate (advance e r t) = advance e r t"
    unfolding adv using isoDate_plus_days by blast
  have 3: "(advance e r ^^ k) start
             = start + int k * (if r = ''daily'' then 1 else 7) * msPerDay"
    by (induction k) (simp_all add: adv algebra_simps)
  from 1 2 3 show ?thesis by blast
qed

subsection \<open>The calendar of the example runtime\<close>

text \<open>
  The month step of the example runtime moves every date forward: the first day of the
  following month is later than any day of the month, whatever the year.
\<close>

lemma div_bounds:
  fixes x n :: int
  assumes "0 < n"
  shows "n * (x div n) \<le> x" "x < n * (x div n) + n"
proof -
  have "x = n * (x div n) + x mod n" by simp
  moreover have "0 \<le> x mod n" "x mod n < n" using assms by simp_all
  ultimately show "n * (x div n) \<le> x" "x < n * (x div n) + n" by linarith+
qed

lemma yoe_bounds:
  fixes doe :: int
  assumes "0 \<le> doe" "doe \<le> 146096"
  defines "yoe \<equiv> (doe - doe div 1460 + doe div 36524 - doe div 146096) div 365"
  shows "0 \<le> yoe \<and> yoe \<le> 399"
proof -
  define a where "a = doe div 1460"
  define b where "b = doe div 36524"
  define c where "c = doe div 146096"
  have a: "1460 * a \<le> doe" "doe < 1460 * a + 1460" unfolding a_def by (rule div_bounds, simp)+
  have b: "36524 * b \<le> doe" "doe < 36524 * b + 36524" unfolding b_def by (rule div_bounds, simp)+
  have c: "146096 * c \<le> doe" "doe < 146096 * c + 146096" unfolding c_def by (rule div_bounds, simp)+
  define N where "N = doe - a + b - c"
  have y: "365 * yoe \<le> N" "N < 365 * yoe + 365"
    unfolding yoe_def N_def a_def b_def c_def by (rule div_bounds, simp)+
  have "0 \<le> N" unfolding N_def using a b c assms by linarith
  moreover have "N \<le> 145999"
  proof (cases "doe = 146096")
    case True
    then show ?thesis unfolding N_def a_def b_def c_def by simp
  next
    case False
    then have "doe \<le> 146095" using assms by simp
    then show ?thesis unfolding N_def using a b c assms by linarith
  qed
  ultimately show ?thesis using y by linarith
qed

lemma doy_upper:
  fixes doe :: int
  assumes "0 \<le> doe" "doe \<le> 146096"
  defines "yoe \<equiv> (doe - doe div 1460 + doe div 36524 - doe div 146096) div 365"
  shows "doe - (365 * yoe + yoe div 4 - yoe div 100) \<le> 366"
proof -
  define a where "a = doe div 1460"
  define b where "b = doe div 36524"
  define c where "c = doe div 146096"
  have a: "1460 * a \<le> doe" "doe < 1460 * a + 1460" unfolding a_def by (rule div_bounds, simp)+
  have b: "36524 * b \<le> doe" "doe < 36524 * b + 36524" unfolding b_def by (rule div_bounds, simp)+
  have c: "146096 * c \<le> doe" "doe < 146096 * c + 146096" unfolding c_def by (rule div_bounds, simp)+
  define N where "N = doe - a + b - c"
  have y: "365 * yoe \<le> N" "N < 365 * yoe + 365"
    unfolding yoe_def N_def a_def b_def c_def by (rule div_bounds, simp)+
  define q where "q = yoe div 4"
  define h where "h = yoe div 100"
  have q: "4 * q \<le> yoe" "yoe < 4 * q + 4" unfolding q_def by (rule div_bounds, simp)+
  have h: "100 * h \<le> yoe" "yoe < 100 * h + 100" unfolding h_def by (rule div_bounds, simp)+
  show ?thesis
  proof (cases "doe = 146096")
    case True
    then show ?thesis unfolding yoe_def by simp
  next
    case False
    then have "doe \<le> 146095" using assms by simp
    then have "c = 0" unfolding c_def using assms by simp
    then have "doe - (365 * yoe + q - h) \<le> 366"
      using a b y q h assms unfolding N_def by linarith
    then show ?thesis unfolding q_def h_def .
  qed
qed


lemma daysFromCivil_yearStart:
  "daysFromCivil y m d =
     yearStart (if m \<le> 2 then y - 1 else y)
       + (153 * (if m > 2 then m - 3 else m + 9) + 2) div 5 + d - 1 - 719468"
  by (simp add: daysFromCivil_def yearStart_def Let_def)

lemma yearStart_era:
  assumes "0 \<le> yoe" "yoe \<le> 399"
  shows "yearStart (yoe + era * 400) = era * 146097 + 365 * yoe + yoe div 4 - yoe div 100"
proof -
  have "(yoe + era * 400) div 400 = era"
    using assms by simp
  then show ?thesis by (simp add: yearStart_def)
qed

lemma yearStart_step: "yearStart y + 364 \<le> yearStart (y + 1)"
proof -
  define e where "e = y div 400"
  define r where "r = y - e * 400"
  define q0 where "q0 = r div 4"
  define h0 where "h0 = r div 100"
  define q1 where "q1 = (r + 1) div 4"
  define h1 where "h1 = (r + 1) div 100"
  have er: "0 \<le> r" "r < 400" using div_bounds [of 400 y] by (simp_all add: r_def e_def)
  have y: "y = r + e * 400" by (simp add: r_def)
  have q: "4 * q0 \<le> r" "r < 4 * q0 + 4" unfolding q0_def by (rule div_bounds, simp)+
  have h: "100 * h0 \<le> r" "r < 100 * h0 + 100" unfolding h0_def by (rule div_bounds, simp)+
  have ys: "yearStart y = e * 146097 + 365 * r + q0 - h0"
    unfolding y q0_def h0_def using er by (intro yearStart_era) simp_all
  show ?thesis
  proof (cases "r = 399")
    case True
    then have y1: "y + 1 = (e + 1) * 400" using y by simp
    have "yearStart ((e + 1) * 400) = (e + 1) * 146097"
      by (simp add: yearStart_def)
    then have "yearStart (y + 1) = (e + 1) * 146097" unfolding y1 .
    moreover have "q0 = 99" "h0 = 3" using True by (simp_all add: q0_def h0_def)
    ultimately show ?thesis using ys True by simp
  next
    case False
    then have r1: "0 \<le> r + 1" "r + 1 \<le> 399" using er by simp_all
    have y1: "y + 1 = (r + 1) + e * 400" using y by simp
    have s: "yearStart (y + 1) = e * 146097 + 365 * (r + 1) + q1 - h1"
      unfolding y1 q1_def h1_def using r1 by (rule yearStart_era)
    have q1: "4 * q1 \<le> r + 1" "r + 1 < 4 * q1 + 4"
      unfolding q1_def by (rule div_bounds, simp)+
    have h1: "100 * h1 \<le> r + 1" "r + 1 < 100 * h1 + 100"
      unfolding h1_def by (rule div_bounds, simp)+
    have "q0 \<le> q1" using q q1 by linarith
    moreover have "h1 \<le> h0 + 1" using h h1 by linarith
    ultimately show ?thesis using ys s by simp
  qed
qed

lemma month_offset_mono:
  fixes mp :: int
  shows "(153 * mp + 2) div 5 < (153 * (mp + 1) + 2) div 5"
proof -
  define u where "u = (153 * mp + 2) div 5"
  define v where "v = (153 * (mp + 1) + 2) div 5"
  have u: "5 * u \<le> 153 * mp + 2" "153 * mp + 2 < 5 * u + 5"
    unfolding u_def by (rule div_bounds, simp)+
  have v: "5 * v \<le> 153 * (mp + 1) + 2" "153 * (mp + 1) + 2 < 5 * v + 5"
    unfolding v_def by (rule div_bounds, simp)+
  have "u < v" using u v by (simp add: algebra_simps)
  then show ?thesis unfolding u_def v_def .
qed

lemma month_offset_mono13:
  fixes mp :: int
  shows "(153 * mp + 2) div 5 < (153 * (mp + 13) + 2) div 5"
proof -
  define u where "u = (153 * mp + 2) div 5"
  define v where "v = (153 * (mp + 13) + 2) div 5"
  have u: "5 * u \<le> 153 * mp + 2" "153 * mp + 2 < 5 * u + 5"
    unfolding u_def by (rule div_bounds, simp)+
  have v: "5 * v \<le> 153 * (mp + 13) + 2" "153 * (mp + 13) + 2 < 5 * v + 5"
    unfolding v_def by (rule div_bounds, simp)+
  have "u < v" using u v by (simp add: algebra_simps)
  then show ?thesis unfolding u_def v_def .
qed

lemma civil_parts:
  fixes z :: int
  assumes "civilFromDays z = (y, m, d)"
  defines "era \<equiv> (z + 719468) div 146097"
  defines "doe \<equiv> z + 719468 - era * 146097"
  defines "yoe \<equiv> (doe - doe div 1460 + doe div 36524 - doe div 146096) div 365"
  defines "doy \<equiv> doe - (365 * yoe + yoe div 4 - yoe div 100)"
  defines "mp \<equiv> (5 * doy + 2) div 153"
  shows "m = (if mp < 10 then mp + 3 else mp - 9)"
    and "d = doy - (153 * mp + 2) div 5 + 1"
    and "y = yoe + era * 400 + (if m \<le> 2 then 1 else 0)"
proof -
  have "civilFromDays z =
          (yoe + era * 400 + (if (if mp < 10 then mp + 3 else mp - 9) \<le> 2 then 1 else 0),
           (if mp < 10 then mp + 3 else mp - 9),
           doy - (153 * mp + 2) div 5 + 1)"
    unfolding civilFromDays_def Let_def era_def doe_def yoe_def doy_def mp_def ..
  with assms(1) show "m = (if mp < 10 then mp + 3 else mp - 9)"
    and "d = doy - (153 * mp + 2) div 5 + 1"
    and "y = yoe + era * 400 + (if m \<le> 2 then 1 else 0)"
    by auto
qed

lemma next_month_later:
  fixes z :: int
  assumes "civilFromDays z = (y, m, d)"
  shows "z < (if m = 12 then daysFromCivil (y + 1) 1 1 else daysFromCivil y (m + 1) 1) + (d - 1)"
proof -
  define era where "era = (z + 719468) div 146097"
  define doe where "doe = z + 719468 - era * 146097"
  define yoe where "yoe = (doe - doe div 1460 + doe div 36524 - doe div 146096) div 365"
  define doy where "doy = doe - (365 * yoe + yoe div 4 - yoe div 100)"
  define mp where "mp = (5 * doy + 2) div 153"
  define Y0 where "Y0 = yoe + era * 400"
  define off where "off = (153 * mp + 2) div 5"
  have m: "m = (if mp < 10 then mp + 3 else mp - 9)"
    and d: "d = doy - off + 1"
    and y: "y = Y0 + (if m \<le> 2 then 1 else 0)"
    using civil_parts [OF assms]
    unfolding era_def doe_def yoe_def doy_def mp_def Y0_def off_def by blast+
  have doe: "0 \<le> doe" "doe \<le> 146096"
    using div_bounds [of 146097 "z + 719468"] by (simp_all add: doe_def era_def)
  have yoe: "0 \<le> yoe" "yoe \<le> 399"
    using yoe_bounds [OF doe] by (simp_all add: yoe_def)
  have "doy \<le> 366"
    using doy_upper [OF doe] by (simp add: doy_def yoe_def)
  moreover have "153 * mp \<le> 5 * doy + 2"
    unfolding mp_def by (rule div_bounds) simp
  ultimately have mp: "mp \<le> 11" by linarith
  have ys: "yearStart Y0 = era * 146097 + 365 * yoe + yoe div 4 - yoe div 100"
    unfolding Y0_def using yoe by (rule yearStart_era)
  have z: "z = yearStart Y0 + off + d - 1 - 719468"
    unfolding ys d doy_def doe_def by simp
  consider "mp = 11" | "mp = 10" | "mp = 9" | "0 \<le> mp" "mp \<le> 8" | "mp = -1" | "mp \<le> -2"
    using mp by linarith
  then show ?thesis
  proof cases
    case 1
    then have my: "m = 2" "y = Y0 + 1" using m y by simp_all
    have "off = 337" using 1 by (simp add: off_def)
    moreover have "daysFromCivil (Y0 + 1) 3 1 = yearStart (Y0 + 1) - 719468"
      by (simp add: daysFromCivil_yearStart)
    ultimately show ?thesis
      unfolding my using yearStart_step [of Y0] z by simp
  next
    case 2
    then have my: "m = 1" "y = Y0 + 1" using m y by simp_all
    have "off = 306" using 2 by (simp add: off_def)
    moreover have "daysFromCivil (Y0 + 1) 2 1 = yearStart Y0 + 337 - 719468"
      by (simp add: daysFromCivil_yearStart)
    ultimately show ?thesis
      unfolding my using z by simp
  next
    case 3
    then have my: "m = 12" "y = Y0" using m y by simp_all
    have "off = 275" using 3 by (simp add: off_def)
    moreover have "daysFromCivil (Y0 + 1) 1 1 = yearStart Y0 + 306 - 719468"
      by (simp add: daysFromCivil_yearStart)
    ultimately show ?thesis
      unfolding my using z by simp
  next
    case 4
    then have my: "m = mp + 3" "y = Y0" using m y by simp_all
    have ne: "mp + 3 \<noteq> 12" using 4 by simp
    have "daysFromCivil Y0 (mp + 3 + 1) 1
            = yearStart Y0 + (153 * (mp + 1) + 2) div 5 - 719468"
      using 4 by (simp add: daysFromCivil_yearStart)
    moreover have "off < (153 * (mp + 1) + 2) div 5"
      unfolding off_def by (rule month_offset_mono)
    ultimately show ?thesis
      unfolding my using z ne by simp
  next
    case 5
    then have my: "m = 2" "y = Y0 + 1" using m y by simp_all
    have "off = -31" using 5 by (simp add: off_def)
    moreover have "daysFromCivil (Y0 + 1) 3 1 = yearStart (Y0 + 1) - 719468"
      by (simp add: daysFromCivil_yearStart)
    ultimately show ?thesis
      unfolding my using yearStart_step [of Y0] z by simp
  next
    case 6
    then have my: "m = mp + 3" "y = Y0 + 1" using m y by simp_all
    have ne: "mp + 3 \<noteq> 12" using 6 by simp
    have "daysFromCivil (Y0 + 1) (mp + 3 + 1) 1
            = yearStart Y0 + (153 * (mp + 13) + 2) div 5 - 719468"
      using 6 by (simp add: daysFromCivil_yearStart)
    moreover have "off < (153 * (mp + 13) + 2) div 5"
      unfolding off_def by (rule month_offset_mono13)
    ultimately show ?thesis
      unfolding my using z ne by simp
  qed
qed

lemma utcSetMonthPlus_forward: "t < utcSetMonthPlus t"
proof -
  obtain y m d where c: "civilFromDays (t div msPerDay) = (y, m, d)"
    by (metis prod_cases3)
  define s where "s = (if m = 12 then daysFromCivil (y + 1) 1 1 else daysFromCivil y (m + 1) 1)"
  define z where "z = t div msPerDay"
  define r where "r = t mod msPerDay"
  have "z < s + (d - 1)"
    unfolding s_def z_def using c by (rule next_month_later)
  then have "z + 1 \<le> s + (d - 1)" by simp
  then have "(z + 1) * 86400000 \<le> (s + (d - 1)) * 86400000"
    by (rule mult_right_mono) simp
  moreover have t: "t = z * 86400000 + r" "r < 86400000" "0 \<le> r"
    by (simp_all add: z_def r_def msPerDay_def)
  moreover have "utcSetMonthPlus t = s * 86400000 + (d - 1) * 86400000 + r"
    unfolding utcSetMonthPlus_def c by (simp add: s_def r_def msPerDay_def)
  ultimately show ?thesis by (simp add: algebra_simps)
qed

lemma utcSetMonthPlus_midnight:
  assumes "isoDate t = t"
  shows "isoDate (utcSetMonthPlus t) = utcSetMonthPlus t"
proof -
  obtain y m d where c: "civilFromDays (t div msPerDay) = (y, m, d)"
    by (metis prod_cases3)
  define s where "s = (if m = 12 then daysFromCivil (y + 1) 1 1 else daysFromCivil y (m + 1) 1)"
  have "t = (t div msPerDay) * msPerDay + t mod msPerDay" by simp
  with assms have "t mod msPerDay = 0" unfolding isoDate_def by linarith
  then have "utcSetMonthPlus t = (s + (d - 1)) * msPerDay"
    unfolding utcSetMonthPlus_def c by (simp add: s_def algebra_simps)
  moreover have "isoDate ((s + (d - 1)) * msPerDay) = (s + (d - 1)) * msPerDay"
    by (simp add: isoDate_def msPerDay_def)
  ultimately show ?thesis by simp
qed

text \<open>
  On the example runtime each of the three steps moves every date forward and keeps UTC
  midnights.
\<close>

lemma utc_host_advances:
  assumes "r = ''daily'' \<or> r = ''weekly'' \<or> r = ''monthly''"
  shows "(\<forall>t. t < advance (utcEnv clock next) r t) \<and>
         (\<forall>t. isoDate t = t
                \<longrightarrow> isoDate (advance (utcEnv clock next) r t) = advance (utcEnv clock next) r t)"
proof (cases "r = ''monthly''")
  case True
  then have "advance (utcEnv clock next) r = utcSetMonthPlus"
    by (simp add: advance_def utcEnv_def fun_eq_iff)
  then show ?thesis
    using utcSetMonthPlus_forward utcSetMonthPlus_midnight by simp
next
  case False
  with assms have r: "r = ''daily'' \<or> r = ''weekly''" by blast
  have "\<forall>n t. setDatePlus (utcEnv clock next) n t = t + n * msPerDay"
    by (simp add: utcEnv_def)
  from fixed_offset_host [OF this r, of 0 0] show ?thesis by blast
qed

text \<open>
  C5. The recurrence calculator returns \<^verbatim>\<open>null\<close> when the start date or the recurrence is
  absent. Otherwise, for a recurrence whose calendar step moves every date forward (so one
  of \<^verbatim>\<open>daily\<close>, \<^verbatim>\<open>weekly\<close>, \<^verbatim>\<open>monthly\<close>, on a host whose calendar advances), the loop
  ends after some \<open>k\<close> steps: the start date advanced by \<open>k\<close> periods is not in the past, it
  is the smallest such date, and \<open>k = 0\<close> when the start date is not in the past. What is
  returned is not that date but its UTC calendar date: the last UTC midnight that is not
  after it, which can be in the past. The two are equal for a calendar date (a date string
  without a time of day) on a host whose calendar steps keep UTC midnights. On a host whose
  days all have \<open>msPerDay\<close> milliseconds, \<open>j\<close> daily steps are \<open>j\<close> days and \<open>j\<close> weekly steps are
  \<open>j\<close> weeks. The example runtime is such a host, and its month step moves forward as well
  (\<open>utc_host_advances\<close>).
\<close>

theorem next_recurrence_date:
  assumes "\<forall>t. t < advance e r t"
  shows "getNextRecurrenceDate e None r = Inr None \<and>
         getNextRecurrenceDate e sd '''' = Inr None \<and>
         (r = ''daily'' \<or> r = ''weekly'' \<or> r = ''monthly'') \<and>
         (\<exists>k. getNextRecurrenceDate e (Some start) r
                 = Inr (Some (isoDate ((advance e r ^^ k) start))) \<and>
              \<not> (advance e r ^^ k) start < now e \<and>
              (\<forall>j. \<not> (advance e r ^^ j) start < now e
                     \<longrightarrow> (advance e r ^^ k) start \<le> (advance e r ^^ j) start) \<and>
              (\<not> start < now e \<longrightarrow> k = 0) \<and>
              isoDate ((advance e r ^^ k) start) \<le> (advance e r ^^ k) start \<and>
              (advance e r ^^ k) start < isoDate ((advance e r ^^ k) start) + msPerDay \<and>
              ((\<forall>t. isoDate t = t \<longrightarrow> isoDate (advance e r t) = advance e r t) \<and>
               isoDate start = start
                 \<longrightarrow> isoDate ((advance e r ^^ k) start) = (advance e r ^^ k) start)) \<and>
         ((\<forall>n t. setDatePlus e n t = t + n * msPerDay) \<and> r \<noteq> ''monthly'' \<longrightarrow>
            (\<forall>j. (advance e r ^^ j) start
                   = start + int j * (if r = ''daily'' then 1 else 7) * msPerDay))"
proof -
  have r: "r \<noteq> ''''"
    using handled_recurrence [OF assms] by auto
  obtain k where k: "while_option (\<lambda>date. date < now e) (advance e r) start
                       = Some ((advance e r ^^ k) start)"
      "\<not> (advance e r ^^ k) start < now e"
      "\<forall>j. \<not> (advance e r ^^ j) start < now e
            \<longrightarrow> (advance e r ^^ k) start \<le> (advance e r ^^ j) start"
    using loop_returns [OF assms, of "now e" start] by blast
  have 1: "getNextRecurrenceDate e (Some start) r
             = Inr (Some (isoDate ((advance e r ^^ k) start)))"
    using r k(1) by (simp add: getNextRecurrenceDate_def)
  have 2: "k = 0" if "\<not> start < now e"
  proof (rule ccontr)
    assume "k \<noteq> 0"
    have "(advance e r ^^ k) start \<le> (advance e r ^^ 0) start"
      using k(3) that by (metis funpow_0)
    moreover have "start + int k \<le> (advance e r ^^ k) start"
      using assms by (rule funpow_grows)
    ultimately show False using \<open>k \<noteq> 0\<close> by simp
  qed
  have 3: "isoDate ((advance e r ^^ k) start) = (advance e r ^^ k) start"
    if "\<forall>t. isoDate t = t \<longrightarrow> isoDate (advance e r t) = advance e r t" "isoDate start = start"
    using that by (rule isoDate_funpow)
  have 4: "(advance e r ^^ j) start
             = start + int j * (if r = ''daily'' then 1 else 7) * msPerDay"
    if "\<forall>n t. setDatePlus e n t = t + n * msPerDay" "r \<noteq> ''monthly''" for j
  proof -
    have "r = ''daily'' \<or> r = ''weekly''"
      using handled_recurrence [OF assms] that(2) by blast
    from fixed_offset_host [OF that(1) this, of j start] show ?thesis by blast
  qed
  have "getNextRecurrenceDate e None r = Inr None"
    by (simp add: getNextRecurrenceDate_def)
  moreover have "getNextRecurrenceDate e sd '''' = Inr None"
    by (simp add: getNextRecurrenceDate_def split: option.splits)
  ultimately have
    "getNextRecurrenceDate e None r = Inr None \<and>
     getNextRecurrenceDate e sd '''' = Inr None \<and>
     (r = ''daily'' \<or> r = ''weekly'' \<or> r = ''monthly'') \<and>
     (\<exists>k. getNextRecurrenceDate e (Some start) r
             = Inr (Some (isoDate ((advance e r ^^ k) start))) \<and>
          \<not> (advance e r ^^ k) start < now e \<and>
          (\<forall>j. \<not> (advance e r ^^ j) start < now e
                 \<longrightarrow> (advance e r ^^ k) start \<le> (advance e r ^^ j) start) \<and>
          (\<not> start < now e \<longrightarrow> k = 0) \<and>
          isoDate ((advance e r ^^ k) start) \<le> (advance e r ^^ k) start \<and>
          (advance e r ^^ k) start < isoDate ((advance e r ^^ k) start) + msPerDay \<and>
          ((\<forall>t. isoDate t = t \<longrightarrow> isoDate (advance e r t) = advance e r t) \<and>
           isoDate start = start
             \<longrightarrow> isoDate ((advance e r ^^ k) start) = (advance e r ^^ k) start))"
    using 1 2 3 k(2,3) isoDate_bounds [of "(advance e r ^^ k) start"]
      handled_recurrence [OF assms]
    by blast
  with 4 show ?thesis by blast
qed

theorem next_recurrence_date_witness:
  "(\<forall>t. t < advance (utcEnv 216000000 1) ''daily'' t) \<and>
   isoDate 0 = 0 \<and>
   getNextRecurrenceDate (utcEnv 216000000 1) (Some 0) ''daily'' = Inr (Some 259200000) \<and>
   getNextRecurrenceDate (utcEnv 216000000 1) (Some 864000000) ''daily'' = Inr (Some 864000000) \<and>
   (\<exists>k. getNextRecurrenceDate (utcEnv 216000000 1) (Some 0) ''daily''
           = Inr (Some (isoDate ((advance (utcEnv 216000000 1) ''daily'' ^^ k) 0))) \<and>
        \<not> (advance (utcEnv 216000000 1) ''daily'' ^^ k) 0 < now (utcEnv 216000000 1) \<and>
        isoDate ((advance (utcEnv 216000000 1) ''daily'' ^^ k) 0)
          = (advance (utcEnv 216000000 1) ''daily'' ^^ k) 0) \<and>
   (\<forall>j. (advance (utcEnv 216000000 1) ''daily'' ^^ j) 0 = int j * msPerDay) \<and>
   (\<forall>t. t < advance (utcEnv 1676419200000 1) ''monthly'' t) \<and>
   getNextRecurrenceDate (utcEnv 1676419200000 1) (Some 1675123200000) ''monthly''
     = Inr (Some 1677801600000) \<and>
   (\<exists>k. getNextRecurrenceDate (utcEnv 1676419200000 1) (Some 1675123200000) ''monthly''
           = Inr (Some (isoDate ((advance (utcEnv 1676419200000 1) ''monthly'' ^^ k)
                                   1675123200000))) \<and>
        \<not> (advance (utcEnv 1676419200000 1) ''monthly'' ^^ k) 1675123200000
            < now (utcEnv 1676419200000 1))"
proof -
  let ?e = "utcEnv 216000000 1"
  let ?m = "utcEnv 1676419200000 1"
  have 1: "\<forall>t. t < advance ?e ''daily'' t"
    by (simp add: advance_def utcEnv_def msPerDay_def)
  have 2: "\<forall>t. isoDate t = t \<longrightarrow> isoDate (advance ?e ''daily'' t) = advance ?e ''daily'' t"
    using isoDate_plus_days [of _ 1] by (simp add: advance_def utcEnv_def)
  have 3: "isoDate 0 = 0" by (simp add: isoDate_def)
  have 4: "getNextRecurrenceDate ?e (Some 0) ''daily'' = Inr (Some 259200000)"
    by (simp add: getNextRecurrenceDate_def while_option_unfold advance_def utcEnv_def
        isoDate_def msPerDay_def)
  have 5: "getNextRecurrenceDate ?e (Some 864000000) ''daily'' = Inr (Some 864000000)"
    by (simp add: getNextRecurrenceDate_def while_option_unfold advance_def utcEnv_def
        isoDate_def msPerDay_def)
  have 6: "\<forall>n t. setDatePlus ?e n t = t + n * msPerDay"
    by (simp add: utcEnv_def)
  have 7: "\<forall>t. t < advance ?m ''monthly'' t"
    using utc_host_advances [of "''monthly''" 1676419200000 1] by simp
  have 8: "getNextRecurrenceDate ?m (Some 1675123200000) ''monthly'' = Inr (Some 1677801600000)"
    by code_simp
  note daily = next_recurrence_date [OF 1, of _ 0]
  note monthly = next_recurrence_date [OF 7, of _ 1675123200000]
  from daily 2 3 have a:
    "\<exists>k. getNextRecurrenceDate ?e (Some 0) ''daily''
            = Inr (Some (isoDate ((advance ?e ''daily'' ^^ k) 0))) \<and>
         \<not> (advance ?e ''daily'' ^^ k) 0 < now ?e \<and>
         isoDate ((advance ?e ''daily'' ^^ k) 0) = (advance ?e ''daily'' ^^ k) 0"
    by blast
  from daily 6 have "\<forall>j. (advance ?e ''daily'' ^^ j) 0
                          = 0 + int j * (if ''daily'' = ''daily'' then 1 else 7) * msPerDay"
    by simp
  then have b: "\<forall>j. (advance ?e ''daily'' ^^ j) 0 = int j * msPerDay"
    by simp
  from monthly have c:
    "\<exists>k. getNextRecurrenceDate ?m (Some 1675123200000) ''monthly''
            = Inr (Some (isoDate ((advance ?m ''monthly'' ^^ k) 1675123200000))) \<and>
         \<not> (advance ?m ''monthly'' ^^ k) 1675123200000 < now ?m"
    by blast
  from 1 3 4 5 a b 7 8 c show ?thesis by blast
qed

text \<open>
  C5 does not hold as it is stated. On a UTC host, a weekly date that started at noon of
  1 January 1970, computed in the morning of 8 January, is advanced to noon of 8 January,
  and what is returned is 8 January, whose midnight is in the past. And computed at
  midnight of 1 January 1970, the start date is not in the past, and what is returned is the
  midnight, not the start date.
\<close>

theorem next_recurrence_date_counterexample:
  "getNextRecurrenceDate (utcEnv 626400000 1) (Some 43200000) ''weekly''
     = Inr (Some 604800000) \<and>
   43200000 < now (utcEnv 626400000 1) \<and>
   (604800000 :: int) < now (utcEnv 626400000 1) \<and>
   getNextRecurrenceDate (utcEnv 0 1) (Some 43200000) ''weekly'' = Inr (Some 0) \<and>
   \<not> 43200000 < now (utcEnv 0 1) \<and>
   (0 :: int) \<noteq> 43200000"
  by (simp add: getNextRecurrenceDate_def while_option_unfold advance_def utcEnv_def
      isoDate_def msPerDay_def)

text \<open>
  On the UTC calendar of the example runtime: a monthly date of 31 January 2023, computed
  on 15 February, becomes 3 March. The month is advanced with the day of the month kept,
  and the 31st of February runs over into March.
\<close>

lemma monthly_runs_over:
  "getNextRecurrenceDate (utcEnv (daysFromCivil 2023 2 15 * msPerDay) 1)
     (Some (daysFromCivil 2023 1 31 * msPerDay)) ''monthly''
   = Inr (Some (daysFromCivil 2023 3 3 * msPerDay))"
  by code_simp

section \<open>Toggling\<close>

lemma nodes_Nil [simp]: "nodes path [] = []"
  by (subst nodes.simps) simp

lemma nodes_Cons [simp]:
  "nodes path (t # ts) =
     (path @ [task_id (props t)], props t) # nodes (path @ [task_id (props t)]) (subtasks t)
     @ nodes path ts"
  by (simp add: nodes.simps [of _ "t # ts"] nodes.simps [of _ ts])

lemma toggleAllNestedTasks_Nil [simp]: "toggleAllNestedTasks [] v = []"
  by (subst toggleAllNestedTasks.simps) simp

lemma toggleAllNestedTasks_Cons [simp]:
  "toggleAllNestedTasks (t # ts) v =
     Task ((props t)\<lparr>completed := v\<rparr>) (toggleAllNestedTasks (subtasks t) v)
     # toggleAllNestedTasks ts v"
  by (simp add: toggleAllNestedTasks.simps [of "t # ts"] toggleAllNestedTasks.simps [of ts])

lemma nodes_toggleAll:
  "nodes path (toggleAllNestedTasks tasks v)
     = map (\<lambda>(p, f). (p, f\<lparr>completed := v\<rparr>)) (nodes path tasks)"
  by (induction tasks arbitrary: path rule: forest_induct) simp_all

lemma getNextRecurrenceDate_returns:
  assumes "\<forall>d. d < advance e r d"
  shows "\<exists>x. getNextRecurrenceDate e sd r = Inr x"
proof (cases sd)
  case None
  then show ?thesis by (simp add: getNextRecurrenceDate_def)
next
  case (Some start)
  obtain k where "while_option (\<lambda>date. date < now e) (advance e r) start
                    = Some ((advance e r ^^ k) start)"
    using loop_returns [OF assms, of "now e" start] by blast
  with Some show ?thesis by (simp add: getNextRecurrenceDate_def)
qed

lemma toggleTask_cascades:
  assumes "\<not> completed (props T) \<and> recurrence (props T) \<noteq> ''''
             \<longrightarrow> (\<forall>d. d < advance e (recurrence (props T)) d)"
  shows "\<exists>T'. toggleTask e T = Inr T' \<and> cascaded T T'"
proof (cases "\<not> completed (props T) \<and> recurrence (props T) \<noteq> ''''")
  case True
  with assms have p: "\<forall>d. d < advance e (recurrence (props T)) d" by blast
  obtain x where x: "getNextRecurrenceDate e (dueDate (props T)) (recurrence (props T)) = Inr x"
    using getNextRecurrenceDate_returns [OF p] by blast
  obtain y where y: "getNextRecurrenceDate e (startDate (props T)) (recurrence (props T)) = Inr y"
    using getNextRecurrenceDate_returns [OF p] by blast
  from True x y show ?thesis
    by (simp add: toggleTask_def Let_def cascaded_def nodes_toggleAll)
next
  case False
  then show ?thesis
    by (auto simp: toggleTask_def Let_def cascaded_def nodes_toggleAll)
qed


lemma mapE_matching:
  assumes "\<forall>t \<in> set ts. P t \<longrightarrow> (\<exists>t'. g t = Inr t' \<and> P t' \<and> Q t t')"
  shows "\<exists>ts'. mapE (\<lambda>t. if P t then g t else Inr t) ts = Inr ts' \<and>
               list_all2 Q (filter P ts) (filter P ts')"
  using assms
proof (induction ts)
  case Nil
  show ?case by simp
next
  case (Cons t ts)
  then obtain ts' where ts': "mapE (\<lambda>t. if P t then g t else Inr t) ts = Inr ts'"
      "list_all2 Q (filter P ts) (filter P ts')"
    by auto
  show ?case
  proof (cases "P t")
    case True
    with Cons.prems obtain t' where "g t = Inr t'" "P t'" "Q t t'" by auto
    with True ts' show ?thesis by simp
  next
    case False
    with ts' show ?thesis by simp
  qed
qed

lemma list_all2_concat:
  "list_all2 (\<lambda>x y. list_all2 R (h x) (h y)) xs ys
     \<Longrightarrow> list_all2 R (concat (map h xs)) (concat (map h ys))"
  by (induction xs ys rule: list_all2_induct) (simp_all add: list_all2_appendI)

lemma findTaskAndUpdate_contract:
  assumes "\<forall>t \<in> set (tasksAt forest path).
             \<exists>t'. f t = Inr t' \<and> task_id (props t') = task_id (props t) \<and> R t t'"
  shows "\<exists>forest'. findTaskAndUpdate forest path f = Inr forest' \<and>
                   list_all2 R (tasksAt forest path) (tasksAt forest' path)"
  using assms
proof (induction forest path f rule: findTaskAndUpdate.induct)
  case (1 tasks f)
  show ?case by simp
next
  case (2 tasks i f)
  have "\<forall>t \<in> set tasks. task_id (props t) = i \<longrightarrow>
          (\<exists>t'. f t = Inr t' \<and> task_id (props t') = i \<and> R t t')"
    using "2.prems" by auto
  from mapE_matching [of tasks "\<lambda>t. task_id (props t) = i" f R, OF this]
  show ?case by simp
next
  case (3 tasks currentId v va f)
  let ?P = "\<lambda>t. task_id (props t) = currentId"
  let ?g = "\<lambda>t. case findTaskAndUpdate (subtasks t) (v # va) f of
                   Inl e \<Rightarrow> Inl e
                 | Inr updatedSubtasks \<Rightarrow> Inr (Task (props t) updatedSubtasks)"
  let ?Q = "\<lambda>t t'. list_all2 R (tasksAt (subtasks t) (v # va)) (tasksAt (subtasks t') (v # va))"
  have "\<forall>t \<in> set tasks. ?P t \<longrightarrow> (\<exists>t'. ?g t = Inr t' \<and> ?P t' \<and> ?Q t t')"
  proof (intro ballI impI)
    fix t assume t: "t \<in> set tasks" "?P t"
    have "\<forall>x \<in> set (tasksAt (subtasks t) (v # va)).
            \<exists>x'. f x = Inr x' \<and> task_id (props x') = task_id (props x) \<and> R x x'"
      using "3.prems" t by auto
    from "3.IH" [OF t this] obtain s' where
      "findTaskAndUpdate (subtasks t) (v # va) f = Inr s'"
      "list_all2 R (tasksAt (subtasks t) (v # va)) (tasksAt s' (v # va))"
      by blast
    with t(2) show "\<exists>t'. ?g t = Inr t' \<and> ?P t' \<and> ?Q t t'" by simp
  qed
  from mapE_matching [of tasks ?P ?g ?Q, OF this] obtain ts' where
    ts': "mapE (\<lambda>t. if ?P t then ?g t else Inr t) tasks = Inr ts'"
         "list_all2 ?Q (filter ?P tasks) (filter ?P ts')"
    by blast
  from list_all2_concat [of R "\<lambda>t. tasksAt (subtasks t) (v # va)", OF ts'(2)] ts'(1)
  show ?case by simp
qed

lemma reduceForest_toggle:
  "reduceForest e forest (TOGGLE_TODO i) = reduceForest e forest (TOGGLE_NESTED_TASK [i])"
  by (simp add: reduceForest_def)

lemma reduceArray_toggle:
  "reduceArray e state (TOGGLE_TODO i) = reduceArray e state (TOGGLE_NESTED_TASK [i])"
  by (simp add: reduceArray_def reduceForest_toggle cong: if_cong)

lemma toggle_todo_as_path:
  "todoReducer e st (TOGGLE_TODO i) = todoReducer e st (TOGGLE_NESTED_TASK [i])"
  by (simp add: todoReducer_def reduceArray_toggle)

text \<open>
  C4. Toggle cascade. \<^verbatim>\<open>TOGGLE_NESTED_TASK\<close> returns a forest in which every task that the
  path reaches is toggled: its \<open>completed\<close> flag is flipped and every node of its subtree has
  the new value, whatever it had before, with the subtree otherwise as it was.
  \<^verbatim>\<open>TOGGLE_TODO\<close> of an id does what \<^verbatim>\<open>TOGGLE_NESTED_TASK\<close> does with the path of that one id.
  The reducer returns provided the recurrence loop of a task that becomes completed moves
  its dates forward (no recurrence, or \<^verbatim>\<open>daily\<close>, \<^verbatim>\<open>weekly\<close>, \<^verbatim>\<open>monthly\<close> on a
  calendar that advances).
\<close>

theorem toggle_cascade:
  assumes "\<forall>T \<in> set (tasksAt forest path).
             \<not> completed (props T) \<and> recurrence (props T) \<noteq> ''''
               \<longrightarrow> (\<forall>d. d < advance e (recurrence (props T)) d)"
  shows "(\<exists>forest'. todoReducer e (Some (Ref a (map Some forest))) (TOGGLE_NESTED_TASK path)
                       = Inr (Ref (freshAddr e) (map Some forest')) \<and>
                    list_all2 cascaded (tasksAt forest path) (tasksAt forest' path)) \<and>
         todoReducer e st (TOGGLE_TODO i) = todoReducer e st (TOGGLE_NESTED_TASK [i])"
proof -
  have "\<forall>T \<in> set (tasksAt forest path).
          \<exists>T'. toggleTask e T = Inr T' \<and> task_id (props T') = task_id (props T) \<and> cascaded T T'"
  proof
    fix T assume "T \<in> set (tasksAt forest path)"
    with assms obtain T' where "toggleTask e T = Inr T'" "cascaded T T'"
      using toggleTask_cascades [of T e] by blast
    then show "\<exists>T'. toggleTask e T = Inr T' \<and> task_id (props T') = task_id (props T) \<and> cascaded T T'"
      by (auto simp: cascaded_def)
  qed
  from findTaskAndUpdate_contract [OF this] obtain forest' where
    "findTaskAndUpdate forest path (toggleTask e) = Inr forest'"
    "list_all2 cascaded (tasksAt forest path) (tasksAt forest' path)"
    by blast
  then have "todoReducer e (Some (Ref a (map Some forest))) (TOGGLE_NESTED_TASK path)
               = Inr (Ref (freshAddr e) (map Some forest')) \<and>
             list_all2 cascaded (tasksAt forest path) (tasksAt forest' path)"
    by (simp add: todoReducer_def reduceForest_def)
  then show ?thesis using toggle_todo_as_path by blast
qed

theorem toggle_cascade_witness:
  "tasksAt
     [Task ((props (sampleTask ''r'' False []))\<lparr>recurrence := ''daily'', dueDate := Some 0\<rparr>)
        [sampleTask ''a'' False [sampleTask ''a1'' True []], sampleTask ''b'' False []]]
     [''r'']
   = [Task ((props (sampleTask ''r'' False []))\<lparr>recurrence := ''daily'', dueDate := Some 0\<rparr>)
        [sampleTask ''a'' False [sampleTask ''a1'' True []], sampleTask ''b'' False []]] \<and>
   (\<forall>d. d < advance (utcEnv 216000000 1) ''daily'' d) \<and>
   todoReducer (utcEnv 216000000 1)
     (Some (Ref 0 (map Some
       [Task ((props (sampleTask ''r'' False []))\<lparr>recurrence := ''daily'', dueDate := Some 0\<rparr>)
          [sampleTask ''a'' False [sampleTask ''a1'' True []], sampleTask ''b'' False []]])))
     (TOGGLE_TODO ''r'')
   = Inr (Ref 1 (map Some
       [Task ((props (sampleTask ''r'' True []))\<lparr>recurrence := ''daily'', dueDate := Some 259200000\<rparr>)
          [sampleTask ''a'' True [sampleTask ''a1'' True []], sampleTask ''b'' True []]])) \<and>
   (\<exists>forest'. todoReducer (utcEnv 216000000 1)
       (Some (Ref 0 (map Some
         [Task ((props (sampleTask ''r'' False []))\<lparr>recurrence := ''daily'', dueDate := Some 0\<rparr>)
            [sampleTask ''a'' False [sampleTask ''a1'' True []], sampleTask ''b'' False []]])))
       (TOGGLE_NESTED_TASK [''r''])
     = Inr (Ref (freshAddr (utcEnv 216000000 1)) (map Some forest')) \<and>
     list_all2 cascaded
       (tasksAt
          [Task ((props (sampleTask ''r'' False []))\<lparr>recurrence := ''daily'', dueDate := Some 0\<rparr>)
             [sampleTask ''a'' False [sampleTask ''a1'' True []], sampleTask ''b'' False []]]
          [''r''])
       (tasksAt forest' [''r'']))"
proof -
  let ?T = "Task ((props (sampleTask ''r'' False []))\<lparr>recurrence := ''daily'', dueDate := Some 0\<rparr>)
              [sampleTask ''a'' False [sampleTask ''a1'' True []], sampleTask ''b'' False []]"
  let ?e = "utcEnv 216000000 1"
  have at: "tasksAt [?T] [''r''] = [?T]" by (simp add: sampleTask_def)
  have adv: "\<forall>d. d < advance ?e ''daily'' d"
    by (simp add: advance_def utcEnv_def msPerDay_def)
  have hyp: "\<forall>T \<in> set (tasksAt [?T] [''r'']).
               \<not> completed (props T) \<and> recurrence (props T) \<noteq> ''''
                 \<longrightarrow> (\<forall>d. d < advance ?e (recurrence (props T)) d)"
    unfolding at using adv by (simp add: sampleTask_def)
  have run: "todoReducer ?e (Some (Ref 0 (map Some [?T]))) (TOGGLE_TODO ''r'')
     = Inr (Ref 1 (map Some
         [Task ((props (sampleTask ''r'' True []))\<lparr>recurrence := ''daily'', dueDate := Some 259200000\<rparr>)
            [sampleTask ''a'' True [sampleTask ''a1'' True []], sampleTask ''b'' True []]]))"
    by (simp add: todoReducer_def reduceArray_def reduceForest_def toggleTask_def getNextRecurrenceDate_def
        while_option_unfold advance_def utcEnv_def isoDate_def msPerDay_def sampleTask_def Let_def)
  from toggle_cascade [OF hyp, of 0] at adv run show ?thesis by blast
qed

section \<open>Sorting by due date\<close>

lemma compare_due_asc:
  "sortBy v = ''dueDate'' \<Longrightarrow> sortOrder v = ''asc'' \<Longrightarrow>
     positive (compareTodos v a b) = (\<not> dueLe a b)"
  by (auto simp: compareTodos_def positive_def dueLe_def Let_def split: option.splits)

lemma dueLe_total: "dueLe a b \<or> dueLe b a"
  by (auto simp: dueLe_def split: option.splits)

lemma dueLe_trans: "dueLe a b \<Longrightarrow> dueLe b c \<Longrightarrow> dueLe a c"
  by (auto simp: dueLe_def split: option.splits)

lemma set_insert_arr: "set (insert_arr cmp x ys) = insert x (set ys)"
  by (induction ys) auto

lemma sorted_insert_arr:
  assumes "\<And>a b. positive (cmp a b) = (\<not> dueLe a b)"
  shows "sorted_wrt dueLe ys \<Longrightarrow> sorted_wrt dueLe (insert_arr cmp x ys)"
proof (induction ys)
  case Nil
  show ?case by simp
next
  case (Cons y ys)
  show ?case
  proof (cases "positive (cmp x y)")
    case True
    then have "dueLe y x" using assms dueLe_total by blast
    with Cons True show ?thesis by (auto simp: set_insert_arr)
  next
    case False
    then have "dueLe x y" using assms by simp
    with Cons False show ?thesis by (auto intro: dueLe_trans)
  qed
qed

lemma sorted_sort_arr:
  assumes "\<And>a b. positive (cmp a b) = (\<not> dueLe a b)"
  shows "sorted_wrt dueLe (sort_arr cmp xs)"
  unfolding sort_arr_def by (induction xs) (simp_all add: sorted_insert_arr [OF assms])

lemma dueLe_partition:
  "sorted_wrt dueLe r \<Longrightarrow> r = filter hasDueDate r @ filter (\<lambda>t. \<not> hasDueDate t) r"
proof (induction r)
  case Nil
  show ?case by simp
next
  case (Cons x xs)
  show ?case
  proof (cases "hasDueDate x")
    case True
    with Cons show ?thesis by simp
  next
    case False
    with Cons.prems have "\<forall>y \<in> set xs. \<not> hasDueDate y"
      by (auto simp: dueLe_def hasDueDate_def)
    then have "filter hasDueDate xs = []" "filter (\<lambda>t. \<not> hasDueDate t) xs = xs"
      by (simp_all add: filter_empty_conv filter_id_conv)
    with False show ?thesis by simp
  qed
qed

lemma dueLe_sorted:
  "sorted_wrt dueLe r \<Longrightarrow> sorted (List.map_filter (\<lambda>t. dueDate (props t)) r)"
proof (induction r)
  case Nil
  show ?case by (simp add: List.map_filter_simps)
next
  case (Cons x xs)
  then have IH: "sorted (List.map_filter (\<lambda>t. dueDate (props t)) xs)" by simp
  show ?case
  proof (cases "dueDate (props x)")
    case None
    with IH show ?thesis by (simp add: List.map_filter_simps)
  next
    case (Some d)
    have "\<forall>d' \<in> set (List.map_filter (\<lambda>t. dueDate (props t)) xs). d \<le> d'"
      using Cons.prems Some by (auto simp: dueLe_def List.map_filter_def split: option.splits)
    with IH Some show ?thesis by (simp add: List.map_filter_simps)
  qed
qed

text \<open>
  C9. Due-date sort order: with \<^verbatim>\<open>sortBy = 'dueDate'\<close> and \<^verbatim>\<open>sortOrder = 'asc'\<close> the sorted
  view is its tasks that have a due date followed by its tasks that have none, and the due
  dates, read along the view, are in non-decreasing order.
\<close>

theorem due_date_sort_order:
  assumes "sortBy v = ''dueDate''" and "sortOrder v = ''asc''"
  shows "getFilteredAndSortedTodos v todos
           = filter hasDueDate (getFilteredAndSortedTodos v todos)
             @ filter (\<lambda>t. \<not> hasDueDate t) (getFilteredAndSortedTodos v todos) \<and>
         sorted (List.map_filter (\<lambda>t. dueDate (props t)) (getFilteredAndSortedTodos v todos))"
proof -
  have "sorted_wrt dueLe (sort_arr (compareTodos v) (filteredTodos v todos))"
    by (rule sorted_sort_arr) (rule compare_due_asc [OF assms])
  then show ?thesis
    unfolding getFilteredAndSortedTodos_def using dueLe_partition dueLe_sorted by blast
qed

lemma includes_str_empty [simp]: "includes_str s []"
  by (cases s) simp_all

theorem due_date_sort_order_witness:
  "sortBy dueDateView = ''dueDate'' \<and> sortOrder dueDateView = ''asc'' \<and>
   getFilteredAndSortedTodos dueDateView
     [dueTask ''u'' None, dueTask ''x'' (Some 500), dueTask ''y'' (Some 300), dueTask ''w'' None,
      dueTask ''z'' (Some 300)]
   = [dueTask ''y'' (Some 300), dueTask ''z'' (Some 300), dueTask ''x'' (Some 500),
      dueTask ''u'' None, dueTask ''w'' None] \<and>
   sorted (List.map_filter (\<lambda>t. dueDate (props t))
     (getFilteredAndSortedTodos dueDateView
        [dueTask ''u'' None, dueTask ''x'' (Some 500), dueTask ''y'' (Some 300), dueTask ''w'' None,
         dueTask ''z'' (Some 300)]))"
proof -
  have v: "sortBy dueDateView = ''dueDate''" "sortOrder dueDateView = ''asc''"
    by (simp_all add: dueDateView_def)
  have f: "filteredTodos dueDateView todos = todos" for todos
    by (simp add: filteredTodos_def dueDateView_def toLowerCase_def includes_str_empty)
  have r: "getFilteredAndSortedTodos dueDateView
     [dueTask ''u'' None, dueTask ''x'' (Some 500), dueTask ''y'' (Some 300), dueTask ''w'' None,
      dueTask ''z'' (Some 300)]
   = [dueTask ''y'' (Some 300), dueTask ''z'' (Some 300), dueTask ''x'' (Some 500),
      dueTask ''u'' None, dueTask ''w'' None]"
    unfolding getFilteredAndSortedTodos_def f
    by (simp add: sort_arr_def compareTodos_def dueDateView_def positive_def dueTask_def
        sampleTask_def)
  from due_date_sort_order [OF v] have
    "sorted (List.map_filter (\<lambda>t. dueDate (props t)) (getFilteredAndSortedTodos dueDateView todos))"
    for todos by blast
  with v r show ?thesis by blast
qed

end
